theory Spec2Isabelle
  imports Main
begin

section \<open>The checkers rules engine of \<^verbatim>\<open>cogs/games/checkers.py\<close>\<close>

text \<open>
  The engine is the class \<^verbatim>\<open>Board\<close> and the module-level helpers above it:
  the geometry (\<^verbatim>\<open>_to_i\<close>, \<^verbatim>\<open>_i_to_xy\<close>, \<^verbatim>\<open>_xy_to_i\<close>), the two lookup
  tables \<^verbatim>\<open>_MOVES\<close> and \<^verbatim>\<open>_CAPTURES\<close>, the generators \<^verbatim>\<open>legal_moves\<close>,
  \<^verbatim>\<open>jumps\<close>, \<^verbatim>\<open>jumps_from\<close> with its local \<^verbatim>\<open>jump_helper\<close>, and
  \<^verbatim>\<open>move\<close>. Python integers are \<open>int\<close>, the board is a list, the tables are
  maps, every exception is a value, and a generator is the list of what it yields
  together with the exception that ends it, if one does.
\<close>

subsection \<open>Cells, exceptions, generators\<close>

text \<open>
  A cell of the board holds one of the five one-character strings
  \<^verbatim>\<open>' '\<close>, \<^verbatim>\<open>'b'\<close>, \<^verbatim>\<open>'w'\<close>, \<^verbatim>\<open>'B'\<close>, \<^verbatim>\<open>'W'\<close>: the starting board holds
  the first three and \<^verbatim>\<open>move\<close> only ever writes \<^verbatim>\<open>' '\<close>, a cell it read, or
  its \<^verbatim>\<open>upper()\<close>. The string methods the engine calls on a cell are
  \<^verbatim>\<open>lower\<close>, \<^verbatim>\<open>upper\<close> and \<^verbatim>\<open>isupper\<close> (under the name \<^verbatim>\<open>_is_king\<close>).
\<close>

datatype piece = Empty | BK_PIECE | WH_PIECE | BK_KING | WH_KING

fun lower :: "piece \<Rightarrow> piece" where
  "lower BK_KING = BK_PIECE"
| "lower WH_KING = WH_PIECE"
| "lower p = p"

fun upper :: "piece \<Rightarrow> piece" where
  "upper BK_PIECE = BK_KING"
| "upper WH_PIECE = WH_KING"
| "upper p = p"

fun is_king :: "piece \<Rightarrow> bool" where
  "is_king BK_KING = True"
| "is_king WH_KING = True"
| "is_king p = False"

text \<open>\<^verbatim>\<open>PIECES[turn]\<close> with \<^verbatim>\<open>BLACK, WHITE = False, True\<close> and \<^verbatim>\<open>PIECES = 'bw'\<close>.\<close>

definition PIECES :: "bool \<Rightarrow> piece" where
  "PIECES t = (if t then WH_PIECE else BK_PIECE)"

text \<open>
  The exceptions the engine can raise. \<open>IllegalMove\<close> is the
  \<^verbatim>\<open>ValueError('illegal move: ...')\<close> that \<^verbatim>\<open>move\<close> raises itself;
  \<open>ValueError\<close> is the one that tuple unpacking and \<^verbatim>\<open>str.index\<close> raise.
\<close>

datatype error = KeyError | IndexError | ValueError | IllegalMove

text \<open>
  A generator that has been run to its end: the values it yielded, in order, and the
  exception that stopped it (\<open>None\<close> when it returned).
\<close>

type_synonym 'a gen = "'a list \<times> error option"

definition gen_chain :: "'a gen \<Rightarrow> 'a gen \<Rightarrow> 'a gen" where
  "gen_chain g h = (case snd g of Some e \<Rightarrow> g | None \<Rightarrow> (fst g @ fst h, snd h))"

text \<open>A loop whose body yields: the iterations one after the other, up to the first raise.\<close>

fun gen_concat :: "'a gen list \<Rightarrow> 'a gen" where
  "gen_concat [] = ([], None)"
| "gen_concat (g # gs) = gen_chain g (gen_concat gs)"

text \<open>\<^verbatim>\<open>(f(s) for s in g)\<close> where \<open>f\<close> may raise.\<close>

fun gen_map_list :: "('a \<Rightarrow> error + 'b) \<Rightarrow> 'a list \<Rightarrow> error option \<Rightarrow> 'b gen" where
  "gen_map_list f [] e = ([], e)"
| "gen_map_list f (x # xs) e =
     (case f x of
        Inl err \<Rightarrow> ([], Some err)
      | Inr y \<Rightarrow> (y # fst (gen_map_list f xs e), snd (gen_map_list f xs e)))"

definition gen_map :: "('a \<Rightarrow> error + 'b) \<Rightarrow> 'a gen \<Rightarrow> 'b gen" where
  "gen_map f g = gen_map_list f (fst g) (snd g)"

text \<open>
  \<^verbatim>\<open>more_itertools.spy(iterable)\<close>: reads the first item (an exception raised before
  it propagates) and returns it in a list with an iterable of all the items.
\<close>

definition spy :: "'a gen \<Rightarrow> error + ('a list \<times> 'a gen)" where
  "spy g = (case g of
              ([], Some e) \<Rightarrow> Inl e
            | (xs, e) \<Rightarrow> Inr (take 1 xs, (xs, e)))"

subsection \<open>Python sequences and dictionaries\<close>

text \<open>\<^verbatim>\<open>xs[i]\<close>: a negative index counts from the end, an index out of range raises.\<close>

definition py_index :: "'a list \<Rightarrow> int \<Rightarrow> error + 'a" where
  "py_index xs i =
     (if 0 \<le> i \<and> i < int (length xs) then Inr (xs ! nat i)
      else if - int (length xs) \<le> i \<and> i < 0 then Inr (xs ! nat (int (length xs) + i))
      else Inl IndexError)"

text \<open>\<^verbatim>\<open>xs[i] = v\<close>.\<close>

definition py_setitem :: "'a list \<Rightarrow> int \<Rightarrow> 'a \<Rightarrow> error + 'a list" where
  "py_setitem xs i v =
     (if 0 \<le> i \<and> i < int (length xs) then Inr (xs[nat i := v])
      else if - int (length xs) \<le> i \<and> i < 0 then Inr (xs[nat (int (length xs) + i) := v])
      else Inl IndexError)"

text \<open>\<^verbatim>\<open>d[k]\<close> and \<^verbatim>\<open>d.get(k, default)\<close>.\<close>

definition dict_lookup :: "('k \<rightharpoonup> 'v) \<Rightarrow> 'k \<Rightarrow> error + 'v" where
  "dict_lookup d k = (case d k of None \<Rightarrow> Inl KeyError | Some v \<Rightarrow> Inr v)"

definition dict_get :: "('k \<rightharpoonup> 'v) \<Rightarrow> 'k \<Rightarrow> 'v \<Rightarrow> 'v" where
  "dict_get d k dflt = (case d k of None \<Rightarrow> dflt | Some v \<Rightarrow> v)"

text \<open>\<^verbatim>\<open>s.index(c)\<close>.\<close>

fun str_index :: "string \<Rightarrow> char \<Rightarrow> error + int" where
  "str_index [] c = Inl ValueError"
| "str_index (d # ds) c =
     (if d = c then Inr 0
      else case str_index ds c of Inl e \<Rightarrow> Inl e | Inr k \<Rightarrow> Inr (k + 1))"

text \<open>\<^verbatim>\<open>range(start, stop, step)\<close> (a zero step is never passed).\<close>

definition py_range :: "int \<Rightarrow> int \<Rightarrow> int \<Rightarrow> int list" where
  "py_range start stop step =
     (if 0 < step then filter (\<lambda>i. (i - start) mod step = 0) [start..stop - 1]
      else if step < 0 then rev (filter (\<lambda>i. (start - i) mod (- step) = 0) [stop + 1..start])
      else [])"

text \<open>A list comprehension whose element expression may raise: the first raise wins.\<close>

fun map_err :: "('a \<Rightarrow> error + 'b) \<Rightarrow> 'a list \<Rightarrow> error + 'b list" where
  "map_err f [] = Inr []"
| "map_err f (x # xs) =
     (case f x of
        Inl e \<Rightarrow> Inl e
      | Inr y \<Rightarrow> (case map_err f xs of Inl e \<Rightarrow> Inl e | Inr ys \<Rightarrow> Inr (y # ys)))"

text \<open>\<^verbatim>\<open>more_itertools.sliced(seq, n)\<close>: slices of length \<open>n\<close>, the last one maybe shorter.\<close>

function sliced :: "'a list \<Rightarrow> nat \<Rightarrow> 'a list list" where
  "sliced xs n = (if xs = [] \<or> n = 0 then [] else take n xs # sliced (drop n xs) n)"
  by pat_completeness auto
termination
  by (relation "measure (\<lambda>(xs, n). length xs)") auto

text \<open>\<^verbatim>\<open>more_itertools.pairwise(xs)\<close>.\<close>

definition pairwise_seq :: "'a list \<Rightarrow> ('a \<times> 'a) list" where
  "pairwise_seq xs = zip xs (tl xs)"

subsection \<open>Geometry\<close>

definition X :: string where
  "X = ''abcdefgh''"

definition Y :: string where
  "Y = ''87654321''"

definition to_i :: "int \<Rightarrow> int \<Rightarrow> int" where
  "to_i x y = y * 8 + x"

text \<open>\<^verbatim>\<open>y, x = divmod(i, 8); return X[x] + Y[y]\<close>.\<close>

definition i_to_xy :: "int \<Rightarrow> error + string" where
  "i_to_xy i =
     (case py_index X (i mod 8) of
        Inl e \<Rightarrow> Inl e
      | Inr cx \<Rightarrow> (case py_index Y (i div 8) of Inl e \<Rightarrow> Inl e | Inr cy \<Rightarrow> Inr [cx, cy]))"

text \<open>\<^verbatim>\<open>x, y = xy; return _to_i(X.index(x), Y.index(y))\<close>.\<close>

definition xy_to_i :: "string \<Rightarrow> error + int" where
  "xy_to_i xy =
     (case xy of
        [x, y] \<Rightarrow>
          (case str_index X x of
             Inl e \<Rightarrow> Inl e
           | Inr xi \<Rightarrow> (case str_index Y y of Inl e \<Rightarrow> Inl e | Inr yi \<Rightarrow> Inr (to_i xi yi)))
      | _ \<Rightarrow> Inl ValueError)"

definition in_range :: "int \<Rightarrow> int \<Rightarrow> bool" where
  "in_range x y = (0 \<le> x \<and> x < 8 \<and> 0 \<le> y \<and> y < 8)"

subsection \<open>The lookup tables\<close>

definition get_checkers :: "int \<Rightarrow> int \<Rightarrow> int \<Rightarrow> (int \<times> int) list" where
  "get_checkers start end direction =
     concat (map (\<lambda>y. concat (map (\<lambda>x. if (x + y) mod 2 = 1 then [(x, y)] else [])
                                   (py_range 0 8 1)))
                 (py_range start (end + direction) direction))"

definition moves :: "int \<Rightarrow> int \<Rightarrow> int \<Rightarrow> int list" where
  "moves x y dy =
     concat (map (\<lambda>dx. if in_range (x + dx) (y + dy) then [to_i (x + dx) (y + dy)] else [])
                 [- 1, 1])"

definition captures :: "int \<Rightarrow> int \<Rightarrow> int \<Rightarrow> (int \<times> int) list" where
  "captures x y dy =
     concat (map (\<lambda>dx. if in_range (x + dx) (y + dy) \<and> in_range (x + dx * 2) (y + dy * 2)
                        then [(to_i (x + dx) (y + dy), to_i (x + dx * 2) (y + dy * 2))]
                        else [])
                 [- 1, 1])"

text \<open>
  \<^verbatim>\<open>_make_dict(f)\<close>: a dictionary from the four piece characters to dictionaries
  from squares to lists. A dictionary comprehension keeps the last value of a key.
\<close>

definition man_dict :: "(int \<Rightarrow> int \<Rightarrow> int \<Rightarrow> 'a list) \<Rightarrow> (int \<times> int) list \<Rightarrow> int \<Rightarrow> (int \<rightharpoonup> 'a list)" where
  "man_dict f checkers dy = map_of (rev (map (\<lambda>(x, y). (to_i x y, f x y dy)) checkers))"

definition king_dict :: "(int \<rightharpoonup> 'a list) \<Rightarrow> (int \<rightharpoonup> 'a list) \<Rightarrow> (int \<rightharpoonup> 'a list)" where
  "king_dict wh bk k =
     (if bk k \<noteq> None \<or> wh k \<noteq> None then Some (dict_get wh k [] @ dict_get bk k []) else None)"

definition make_dict :: "(int \<Rightarrow> int \<Rightarrow> int \<Rightarrow> 'a list) \<Rightarrow> (piece \<rightharpoonup> (int \<rightharpoonup> 'a list))" where
  "make_dict f p =
     (case p of
        Empty \<Rightarrow> None
      | BK_PIECE \<Rightarrow> Some (man_dict f (get_checkers 0 8 1) 1)
      | WH_PIECE \<Rightarrow> Some (man_dict f (get_checkers 8 0 (- 1)) (- 1))
      | BK_KING \<Rightarrow> Some (king_dict (man_dict f (get_checkers 8 0 (- 1)) (- 1))
                                    (man_dict f (get_checkers 0 8 1) 1))
      | WH_KING \<Rightarrow> Some (king_dict (man_dict f (get_checkers 8 0 (- 1)) (- 1))
                                    (man_dict f (get_checkers 0 8 1) 1)))"

definition MOVES :: "piece \<rightharpoonup> (int \<rightharpoonup> int list)" where
  "MOVES = make_dict moves"

definition CAPTURES :: "piece \<rightharpoonup> (int \<rightharpoonup> (int \<times> int) list)" where
  "CAPTURES = make_dict captures"

subsection \<open>The board\<close>

record Board =
  board :: "piece list"
  half_moves :: int
  turn :: bool

definition STARTING_BOARD :: "piece list" where
  "STARTING_BOARD =
     [Empty, BK_PIECE, Empty, BK_PIECE, Empty, BK_PIECE, Empty, BK_PIECE,
      BK_PIECE, Empty, BK_PIECE, Empty, BK_PIECE, Empty, BK_PIECE, Empty,
      Empty, BK_PIECE, Empty, BK_PIECE, Empty, BK_PIECE, Empty, BK_PIECE,
      Empty, Empty, Empty, Empty, Empty, Empty, Empty, Empty,
      Empty, Empty, Empty, Empty, Empty, Empty, Empty, Empty,
      WH_PIECE, Empty, WH_PIECE, Empty, WH_PIECE, Empty, WH_PIECE, Empty,
      Empty, WH_PIECE, Empty, WH_PIECE, Empty, WH_PIECE, Empty, WH_PIECE,
      WH_PIECE, Empty, WH_PIECE, Empty, WH_PIECE, Empty, WH_PIECE, Empty]"

text \<open>\<^verbatim>\<open>Board.__init__\<close>.\<close>

definition init :: Board where
  "init = \<lparr>board = STARTING_BOARD, half_moves = 0, turn = True\<rparr>"

definition find_all_pieces :: "Board \<Rightarrow> piece \<Rightarrow> int list" where
  "find_all_pieces s colour =
     map (\<lambda>(i, v). int i) (filter (\<lambda>(i, v). lower v = colour) (enumerate 0 (board s)))"

subsection \<open>The capture search\<close>

text \<open>
  \<^verbatim>\<open>jump_helper(square, captured)\<close>, the generator local to \<^verbatim>\<open>jumps_from\<close>; the
  variables it closes over (\<^verbatim>\<open>board\<close>, \<^verbatim>\<open>self.turn\<close>, \<^verbatim>\<open>captures\<close>) are
  parameters. \<^verbatim>\<open>square >> 3\<close> is \<open>square div 8\<close>, and \<^verbatim>\<open>7 * self.turn\<close>
  multiplies by the truth value.
\<close>

function jump_helper ::
  "piece list \<Rightarrow> bool \<Rightarrow> (int \<rightharpoonup> (int \<times> int) list) \<Rightarrow> int \<Rightarrow> int set \<Rightarrow> int list gen" where
  "jump_helper brd trn capts square captured =
     (case py_index brd square of
        Inl e \<Rightarrow> ([], Some e)
      | Inr p \<Rightarrow>
      (case dict_lookup capts square of
         Inl e \<Rightarrow> ([], Some e)
       | Inr pairs \<Rightarrow>
           gen_concat (map (\<lambda>(jump_over, jump_end).
             (case py_index brd jump_over of
                Inl e \<Rightarrow> ([], Some e)
              | Inr q \<Rightarrow>
                  if lower q \<noteq> PIECES (\<not> trn) then ([], None)
                  else if jump_over \<in> captured then ([], None)
                  else (case py_index brd jump_end of
                          Inl e \<Rightarrow> ([], Some e)
                        | Inr r \<Rightarrow>
                            if r \<noteq> Empty then ([], None)
                            else if \<not> is_king p \<and> square div 8 = 7 * of_bool trn
                            then ([[square, jump_end]], None)
                            else (case spy (jump_helper brd trn capts jump_end
                                              (insert jump_over captured)) of
                                    Inl e \<Rightarrow> ([], Some e)
                                  | Inr (chain_exists, squares) \<Rightarrow>
                                      if chain_exists \<noteq> []
                                      then (map (\<lambda>sequence. square # sequence) (fst squares),
                                            snd squares)
                                      else ([[square, jump_end]], None))))) pairs)))"
  by pat_completeness auto
termination
proof (relation "measure (\<lambda>(brd, trn, capts, square, captured).
                   card ({- int (length brd) ..< int (length brd)} - captured))")
  show "wf (measure (\<lambda>(brd, trn, capts, square, captured).
              card ({- int (length brd) ..< int (length brd)} - captured)))"
    by simp
next
  fix brd :: "piece list" and trn :: bool and capts :: "int \<rightharpoonup> (int \<times> int) list"
    and square :: int and captured :: "int set" and jump_over :: int and jump_end :: int
    and q :: piece
  assume idx: "py_index brd jump_over = Inr q" and fresh: "jump_over \<notin> captured"
  define S where "S = {- int (length brd) ..< int (length brd)}"
  have fin: "finite S"
    by (simp add: S_def)
  from idx have "jump_over \<in> S"
    by (simp add: py_index_def S_def split: if_splits)
  then have mem: "jump_over \<in> S - captured"
    using fresh by simp
  have "S - insert jump_over captured = (S - captured) - {jump_over}"
    by blast
  moreover from fin have "finite (S - captured)"
    by simp
  ultimately have "card (S - insert jump_over captured) < card (S - captured)"
    using mem by (simp only: card_Diff1_less)
  then show "((brd, trn, capts, jump_end, insert jump_over captured),
              (brd, trn, capts, square, captured))
             \<in> measure (\<lambda>(brd, trn, capts, square, captured).
                   card ({- int (length brd) ..< int (length brd)} - captured))"
    by (simp add: S_def)
qed

text \<open>\<^verbatim>\<open>''.join(map(_i_to_xy, s))\<close>.\<close>

definition join_squares :: "int list \<Rightarrow> error + string" where
  "join_squares s = (case map_err i_to_xy s of Inl e \<Rightarrow> Inl e | Inr parts \<Rightarrow> Inr (concat parts))"

definition jumps_from :: "Board \<Rightarrow> int \<Rightarrow> string gen" where
  "jumps_from s square =
     (case py_index (board s) square of
        Inl e \<Rightarrow> ([], Some e)
      | Inr p \<Rightarrow>
          (case dict_lookup CAPTURES p of
             Inl e \<Rightarrow> ([], Some e)
           | Inr capts \<Rightarrow>
               gen_map join_squares (jump_helper (board s) (turn s) capts square {})))"

definition jumps :: "Board \<Rightarrow> string gen" where
  "jumps s = gen_concat (map (jumps_from s) (find_all_pieces s (PIECES (turn s))))"

subsection \<open>Legal moves\<close>

text \<open>
  The second half of \<^verbatim>\<open>legal_moves\<close>: the loop over the pieces of the side to
  move that yields the one-step moves onto empty squares.
\<close>

definition simple_moves :: "Board \<Rightarrow> string gen" where
  "simple_moves s =
     gen_concat (map (\<lambda>i.
       (case py_index (board s) i of
          Inl e \<Rightarrow> ([], Some e)
        | Inr p \<Rightarrow>
        (case dict_lookup MOVES p of
           Inl e \<Rightarrow> ([], Some e)
         | Inr table \<Rightarrow>
         (case dict_lookup table i of
            Inl e \<Rightarrow> ([], Some e)
          | Inr ends \<Rightarrow>
              gen_concat (map (\<lambda>end.
                (case py_index (board s) end of
                   Inl e \<Rightarrow> ([], Some e)
                 | Inr q \<Rightarrow>
                     if q = Empty
                     then (case i_to_xy i of
                             Inl e \<Rightarrow> ([], Some e)
                           | Inr a \<Rightarrow>
                               (case i_to_xy end of
                                  Inl e \<Rightarrow> ([], Some e)
                                | Inr b \<Rightarrow> ([a @ b], None)))
                     else ([], None))) ends)))))
       (find_all_pieces s (PIECES (turn s))))"

definition legal_moves :: "Board \<Rightarrow> string gen" where
  "legal_moves s =
     (case spy (jumps s) of
        Inl e \<Rightarrow> ([], Some e)
      | Inr (jumps_exist, js) \<Rightarrow> if jumps_exist \<noteq> [] then js else simple_moves s)"

subsection \<open>Applying a move\<close>

text \<open>
  The loop of \<^verbatim>\<open>move\<close> over \<^verbatim>\<open>pairwise(squares)\<close>, which empties the square
  between the two ends of every two-step. It returns the board as the loop left it
  and the exception that stopped it, if any.
\<close>

fun capture_loop :: "piece list \<Rightarrow> (int \<times> int) list \<Rightarrow> piece list \<times> error option" where
  "capture_loop brd [] = (brd, None)"
| "capture_loop brd ((before, after) # rest) =
     (let difference = \<bar>before - after\<bar> in
      if difference \<notin> {18, 14} then capture_loop brd rest
      else (case py_setitem brd (min before after + difference div 2) Empty of
              Inl e \<Rightarrow> (brd, Some e)
            | Inr brd' \<Rightarrow> capture_loop brd' rest))"

text \<open>
  \<^verbatim>\<open>Board.move\<close>. The method mutates the object and may raise: the model returns
  the object as the call left it and the exception raised, if any.
  \<^verbatim>\<open>move not in self.legal_moves()\<close> runs the generator until it yields the move;
  an exception of the generator is met only when the move was not yielded before it.
\<close>

definition move :: "Board \<Rightarrow> string \<Rightarrow> Board \<times> error option" where
  "move s mv =
     (if mv \<notin> set (fst (legal_moves s))
      then (s, Some (case snd (legal_moves s) of Some e \<Rightarrow> e | None \<Rightarrow> IllegalMove))
      else
      (case map_err xy_to_i (sliced mv 2) of
         Inl e \<Rightarrow> (s, Some e)
       | Inr squares \<Rightarrow>
       (case py_index squares (- 1) of
          Inl e \<Rightarrow> (s, Some e)
        | Inr end \<Rightarrow>
        (case py_index squares 0 of
           Inl e \<Rightarrow> (s, Some e)
         | Inr start \<Rightarrow>
         (case py_index (board s) start of
            Inl e \<Rightarrow> (s, Some e)
          | Inr piece0 \<Rightarrow>
              (let piece = (if end div 8 = 7 * of_bool (\<not> turn s) \<and> \<not> is_king piece0
                            then upper piece0 else piece0)
               in case capture_loop (board s) (pairwise_seq squares) of
                    (brd1, Some e) \<Rightarrow> (s\<lparr>board := brd1\<rparr>, Some e)
                  | (brd1, None) \<Rightarrow>
                  (case py_setitem brd1 start Empty of
                     Inl e \<Rightarrow> (s\<lparr>board := brd1\<rparr>, Some e)
                   | Inr brd2 \<Rightarrow>
                   (case py_setitem brd2 end piece of
                      Inl e \<Rightarrow> (s\<lparr>board := brd2\<rparr>, Some e)
                    | Inr brd3 \<Rightarrow>
                        (s\<lparr>board := brd3, half_moves := half_moves s + 1,
                           turn := \<not> turn s\<rparr>, None)))))))))"

section \<open>Auxiliary definitions\<close>

subsection \<open>Squares and sequences\<close>

text \<open>
  A light square: row plus column is even. \<^verbatim>\<open>_get_checkers\<close> keeps the squares
  with \<^verbatim>\<open>(x + y) % 2 == 1\<close>, the dark ones.
\<close>

definition light :: "int \<Rightarrow> bool" where
  "light i = ((i div 8 + i mod 8) mod 2 = 0)"

text \<open>
  The squares a sequence of squares jumps over: for each consecutive pair the square
  \<^verbatim>\<open>min(before, after) + difference // 2\<close> that \<^verbatim>\<open>move\<close> empties.
\<close>

definition captured_squares :: "int list \<Rightarrow> int list" where
  "captured_squares c =
     map (\<lambda>(before, after). min before after + \<bar>before - after\<bar> div 2) (pairwise_seq c)"

text \<open>
  The values of \<^verbatim>\<open>square_between\<close> that the loop of \<^verbatim>\<open>move\<close> computes on a
  list of squares: one for every consecutive pair that is 18 or 14 apart.
\<close>

definition squares_between :: "int list \<Rightarrow> int list" where
  "squares_between squares =
     map (\<lambda>(before, after). min before after + \<bar>before - after\<bar> div 2)
         (filter (\<lambda>(before, after). \<bar>before - after\<bar> \<in> {18, 14}) (pairwise_seq squares))"

text \<open>The piece \<^verbatim>\<open>move\<close> puts on the last square: crowned on the far row.\<close>

definition promoted :: "Board \<Rightarrow> int \<Rightarrow> piece \<Rightarrow> piece" where
  "promoted s end piece0 =
     (if end div 8 = 7 * of_bool (\<not> turn s) \<and> \<not> is_king piece0 then upper piece0 else piece0)"

subsection \<open>The capture search, one iteration at a time\<close>

text \<open>
  The body of the \<^verbatim>\<open>for\<close> loop of \<^verbatim>\<open>jump_helper\<close> as a function of the pair it
  runs on; \<open>jump_helper_unfold\<close> states that the search is the loop over this body.
\<close>

definition jump_body ::
  "piece list \<Rightarrow> bool \<Rightarrow> (int \<rightharpoonup> (int \<times> int) list) \<Rightarrow> int \<Rightarrow> int set \<Rightarrow> piece \<Rightarrow>
   int \<times> int \<Rightarrow> int list gen" where
  "jump_body brd trn capts square captured p =
     (\<lambda>(jump_over, jump_end).
        (case py_index brd jump_over of
           Inl e \<Rightarrow> ([], Some e)
         | Inr q \<Rightarrow>
             if lower q \<noteq> PIECES (\<not> trn) then ([], None)
             else if jump_over \<in> captured then ([], None)
             else (case py_index brd jump_end of
                     Inl e \<Rightarrow> ([], Some e)
                   | Inr r \<Rightarrow>
                       if r \<noteq> Empty then ([], None)
                       else if \<not> is_king p \<and> square div 8 = 7 * of_bool trn
                       then ([[square, jump_end]], None)
                       else (case spy (jump_helper brd trn capts jump_end
                                         (insert jump_over captured)) of
                               Inl e \<Rightarrow> ([], Some e)
                             | Inr (chain_exists, squares) \<Rightarrow>
                                 if chain_exists \<noteq> []
                                 then (map (\<lambda>sequence. square # sequence) (fst squares),
                                       snd squares)
                                 else ([[square, jump_end]], None)))))"

text \<open>
  A jump the search accepts: the pair is in the table at the square, the square jumped
  over holds a piece of the other side and was not captured before in this chain, and
  the landing square is empty.
\<close>

definition valid_jump ::
  "piece list \<Rightarrow> bool \<Rightarrow> (int \<rightharpoonup> (int \<times> int) list) \<Rightarrow> int set \<Rightarrow> int \<Rightarrow> int \<Rightarrow> int \<Rightarrow> bool" where
  "valid_jump brd trn capts captured square jump_over jump_end =
     (\<exists>pairs q. capts square = Some pairs \<and> (jump_over, jump_end) \<in> set pairs \<and>
        py_index brd jump_over = Inr q \<and> lower q = PIECES (\<not> trn) \<and>
        jump_over \<notin> captured \<and> py_index brd jump_end = Inr Empty)"

text \<open>Sequences of valid jumps, each adding the square it jumps over to the captured set.\<close>

inductive chain_of ::
  "piece list \<Rightarrow> bool \<Rightarrow> (int \<rightharpoonup> (int \<times> int) list) \<Rightarrow> int set \<Rightarrow> int list \<Rightarrow> bool"
  for brd trn capts where
  final: "valid_jump brd trn capts captured a ov b \<Longrightarrow> chain_of brd trn capts captured [a, b]"
| step: "valid_jump brd trn capts captured a ov b \<Longrightarrow>
         chain_of brd trn capts (insert ov captured) (b # rest) \<Longrightarrow>
         chain_of brd trn capts captured (a # b # rest)"

subsection \<open>Positions used as examples\<close>

text \<open>A white man on c3 that can jump the black men on d4 and f6 in one move.\<close>

definition double_jump_board :: Board where
  "double_jump_board =
     \<lparr>board = (replicate 64 Empty)[42 := WH_PIECE, 35 := BK_PIECE, 21 := BK_PIECE],
      half_moves = 6, turn = True\<rparr>"

text \<open>
  A white man on e1, on White's own back row, with black men on f2 and f4: after the
  jump to g3 a second jump to e5 is there to be made.
\<close>

definition home_row_board :: Board where
  "home_row_board =
     \<lparr>board = (replicate 64 Empty)[60 := WH_PIECE, 53 := BK_PIECE, 37 := BK_PIECE],
      half_moves = 10, turn = True\<rparr>"

text \<open>
  A white man on b6 that jumps the black man on c7 and lands on d8, White's far row;
  a second black man stands on e7.
\<close>

definition promotion_board :: Board where
  "promotion_board =
     \<lparr>board = (replicate 64 Empty)[17 := WH_PIECE, 10 := BK_PIECE, 12 := BK_PIECE],
      half_moves = 20, turn = True\<rparr>"

text \<open>
  A white king on c3 with black men on d2, f2 and f4: it can jump to e1, then to g3,
  then to e5.
\<close>

definition king_chain_board :: Board where
  "king_chain_board =
     \<lparr>board = (replicate 64 Empty)[42 := WH_KING, 51 := BK_PIECE, 53 := BK_PIECE, 37 := BK_PIECE],
      half_moves = 30, turn = True\<rparr>"

subsection \<open>A capture is available\<close>

text \<open>
  Some square that \<^verbatim>\<open>_find_all_pieces\<close> returns for the side to move has, in the
  capture table of the piece on it, a pair whose first square holds a piece of the
  other side and whose second square is empty.
\<close>

definition capture_available :: "Board \<Rightarrow> bool" where
  "capture_available s =
     list_ex (\<lambda>square.
       (case py_index (board s) square of
          Inl e \<Rightarrow> False
        | Inr p \<Rightarrow>
        (case CAPTURES p of
           None \<Rightarrow> False
         | Some capts \<Rightarrow>
         (case capts square of
            None \<Rightarrow> False
          | Some pairs \<Rightarrow>
              list_ex (\<lambda>(jump_over, jump_end).
                (case py_index (board s) jump_over of
                   Inl e \<Rightarrow> False
                 | Inr q \<Rightarrow> lower q = PIECES (\<not> turn s)) \<and>
                py_index (board s) jump_end = Inr Empty) pairs))))
       (find_all_pieces s (PIECES (turn s)))"

subsection \<open>The invariant of the board\<close>

text \<open>
  The board of the specification: 64 cells, of which the light ones are empty.
\<close>

definition light_squares_empty :: "piece list \<Rightarrow> bool" where
  "light_squares_empty brd = list_all (\<lambda>i. \<not> light (int i) \<or> brd ! i = Empty) [0..<length brd]"

definition wf_board :: "piece list \<Rightarrow> bool" where
  "wf_board brd = (length brd = 64 \<and> light_squares_empty brd)"

section \<open>Lemmas\<close>

subsection \<open>Generators\<close>

lemma gen_chain_yields:
  "x \<in> set (fst (gen_chain g h)) \<Longrightarrow> x \<in> set (fst g) \<or> x \<in> set (fst h)"
  by (auto simp: gen_chain_def split: option.splits)

lemma gen_concat_map_yields:
  "x \<in> set (fst (gen_concat (map f xs))) \<Longrightarrow> \<exists>y \<in> set xs. x \<in> set (fst (f y))"
proof (induction xs)
  case Nil
  then show ?case by simp
next
  case (Cons a xs)
  then show ?case
    using gen_chain_yields [of x "f a" "gen_concat (map f xs)"] by auto
qed

lemma spy_Inr: "spy g = Inr (h, g') \<Longrightarrow> g' = g \<and> h = take 1 (fst g)"
  by (auto simp: spy_def split: prod.splits list.splits option.splits)

subsection \<open>The capture search yields chains of valid jumps\<close>

declare jump_helper.simps [simp del]

lemma jump_helper_unfold:
  "py_index brd square = Inr p \<Longrightarrow> dict_lookup capts square = Inr pairs \<Longrightarrow>
   jump_helper brd trn capts square captured =
     gen_concat (map (jump_body brd trn capts square captured p) pairs)"
  by (subst jump_helper.simps) (simp add: jump_body_def)

lemma jump_helper_yields_lookup:
  assumes "c \<in> set (fst (jump_helper brd trn capts square captured))"
  obtains p pairs where "py_index brd square = Inr p" and "dict_lookup capts square = Inr pairs"
  using assms by (subst (asm) jump_helper.simps) (auto split: sum.splits)

lemma jump_body_yields:
  assumes "c \<in> set (fst (jump_body brd trn capts square captured p (jump_over, jump_end)))"
  shows "(\<exists>q. py_index brd jump_over = Inr q \<and> lower q = PIECES (\<not> trn)) \<and>
         jump_over \<notin> captured \<and> py_index brd jump_end = Inr Empty \<and>
         (c = [square, jump_end] \<or>
          (\<not> (\<not> is_king p \<and> square div 8 = 7 * of_bool trn) \<and>
           (\<exists>c'. c = square # c' \<and>
              c' \<in> set (fst (jump_helper brd trn capts jump_end (insert jump_over captured))))))"
  using assms
  by (auto simp: jump_body_def split: sum.splits if_splits prod.splits dest!: spy_Inr)

lemma jump_helper_yields_body:
  assumes "c \<in> set (fst (jump_helper brd trn capts square captured))"
    and "py_index brd square = Inr p" and "dict_lookup capts square = Inr pairs"
  obtains jump_over jump_end where "(jump_over, jump_end) \<in> set pairs"
    and "c \<in> set (fst (jump_body brd trn capts square captured p (jump_over, jump_end)))"
proof -
  from assms have "c \<in> set (fst (gen_concat (map (jump_body brd trn capts square captured p) pairs)))"
    by (simp add: jump_helper_unfold)
  then obtain pr where pr: "pr \<in> set pairs"
    "c \<in> set (fst (jump_body brd trn capts square captured p pr))"
    by (blast dest: gen_concat_map_yields)
  obtain jump_over jump_end where "pr = (jump_over, jump_end)"
    by (cases pr)
  with pr that show thesis
    by simp
qed

lemma chain_of_Cons: "chain_of brd trn capts captured c \<Longrightarrow> \<exists>a b rest. c = a # b # rest"
  by (induction rule: chain_of.induct) auto

lemma jump_helper_sound:
  "c \<in> set (fst (jump_helper brd trn capts square captured)) \<Longrightarrow>
   chain_of brd trn capts captured c \<and> hd c = square"
proof (induction brd trn capts square captured arbitrary: c rule: jump_helper.induct)
  case (1 brd trn capts square captured)
  from "1.prems" obtain p pairs where
    p: "py_index brd square = Inr p" and pairs: "dict_lookup capts square = Inr pairs"
    by (rule jump_helper_yields_lookup)
  from "1.prems" p pairs obtain jump_over jump_end where
    mem: "(jump_over, jump_end) \<in> set pairs" and
    c: "c \<in> set (fst (jump_body brd trn capts square captured p (jump_over, jump_end)))"
    by (rule jump_helper_yields_body)
  note y = jump_body_yields [OF c]
  from y obtain q where q: "py_index brd jump_over = Inr q" "lower q = PIECES (\<not> trn)"
    by blast
  from y have fresh: "jump_over \<notin> captured" and land: "py_index brd jump_end = Inr Empty"
    by blast+
  have vj: "valid_jump brd trn capts captured square jump_over jump_end"
    using pairs mem q fresh land
    by (auto simp: valid_jump_def dict_lookup_def split: option.splits)
  from y consider "c = [square, jump_end]"
    | c' where "\<not> (\<not> is_king p \<and> square div 8 = 7 * of_bool trn)" "c = square # c'"
        "c' \<in> set (fst (jump_helper brd trn capts jump_end (insert jump_over captured)))"
    by blast
  then show ?case
  proof cases
    case 1
    then show ?thesis using vj by (auto intro: chain_of.final)
  next
    case 2
    have "chain_of brd trn capts (insert jump_over captured) c' \<and> hd c' = jump_end"
      using "1.IH" [OF p pairs mem refl q(1) _ fresh land _ 2(1) 2(3)] q(2) by simp
    moreover then obtain b rest where "c' = b # rest"
      by (auto dest: chain_of_Cons)
    ultimately show ?thesis
      using vj 2(2) by (auto intro: chain_of.step)
  qed
qed

subsection \<open>The lookup tables\<close>

lemma to_i_div [simp]: "0 \<le> x \<Longrightarrow> x < 8 \<Longrightarrow> to_i x y div 8 = y"
  by (simp add: to_i_def)

lemma to_i_mod [simp]: "0 \<le> x \<Longrightarrow> x < 8 \<Longrightarrow> to_i x y mod 8 = x"
  by (simp add: to_i_def)

lemma set_get_checkers:
  "set (get_checkers 0 8 1) = {(x, y). 0 \<le> x \<and> x < 8 \<and> 0 \<le> y \<and> y \<le> 8 \<and> (x + y) mod 2 = 1}"
  "set (get_checkers 8 0 (- 1)) = {(x, y). 0 \<le> x \<and> x < 8 \<and> 0 \<le> y \<and> y \<le> 8 \<and> (x + y) mod 2 = 1}"
  by (auto simp: get_checkers_def py_range_def split: if_splits)

lemma man_dict_Some:
  assumes "man_dict f cs dy k = Some v"
  shows "\<exists>x y. (x, y) \<in> set cs \<and> k = to_i x y \<and> v = f x y dy"
proof -
  define g where "g = (\<lambda>(x, y). (to_i x y, f x y dy))"
  from assms have "map_of (rev (map g cs)) k = Some v"
    by (simp only: man_dict_def g_def)
  then have "(k, v) \<in> set (rev (map g cs))"
    by (rule map_of_SomeD)
  then have "(k, v) \<in> g ` set cs"
    by simp
  then obtain xy where xy: "xy \<in> set cs" "(k, v) = g xy"
    by (rule imageE)
  obtain x y where "xy = (x, y)"
    by (cases xy)
  with xy show ?thesis
    by (auto simp: g_def)
qed

lemma man_dict_dom:
  assumes "(x, y) \<in> set cs" and "k = to_i x y"
  shows "man_dict f cs dy k \<noteq> None"
proof -
  define g where "g = (\<lambda>(x, y). (to_i x y, f x y dy))"
  have "g (x, y) \<in> g ` set cs"
    using assms(1) by (rule imageI)
  moreover have "g (x, y) = (k, f x y dy)"
    by (simp add: g_def assms(2))
  ultimately have "(k, f x y dy) \<in> set (rev (map g cs))"
    by simp
  then have "fst (k, f x y dy) \<in> fst ` set (rev (map g cs))"
    by (rule imageI)
  then have "map_of (rev (map g cs)) k \<noteq> None"
    by (simp only: map_of_eq_None_iff not_not fst_conv)
  then show ?thesis
    by (simp add: man_dict_def g_def)
qed

lemma king_dict_Some:
  "king_dict wh bk k = Some v \<Longrightarrow> z \<in> set v \<Longrightarrow>
   (\<exists>w. wh k = Some w \<and> z \<in> set w) \<or> (\<exists>w. bk k = Some w \<and> z \<in> set w)"
  by (auto simp: king_dict_def dict_get_def split: if_splits option.splits)

lemma make_dict_Some:
  assumes "make_dict f p = Some tbl" and "tbl k = Some v" and "z \<in> set v"
  shows "\<exists>x y dy. (dy = 1 \<or> dy = - 1) \<and> (p = BK_PIECE \<longrightarrow> dy = 1) \<and> (p = WH_PIECE \<longrightarrow> dy = - 1) \<and>
           0 \<le> x \<and> x < 8 \<and> 0 \<le> y \<and> y \<le> 8 \<and> (x + y) mod 2 = 1 \<and> k = to_i x y \<and>
           z \<in> set (f x y dy)"
proof -
  have bk: "\<exists>x y. 0 \<le> x \<and> x < 8 \<and> 0 \<le> y \<and> y \<le> 8 \<and> (x + y) mod 2 = 1 \<and> k = to_i x y \<and> z \<in> set (f x y 1)"
    if "man_dict f (get_checkers 0 8 1) 1 k = Some w" and "z \<in> set w" for w
    using man_dict_Some [OF that(1)] that(2) by (auto simp: set_get_checkers)
  have wh: "\<exists>x y. 0 \<le> x \<and> x < 8 \<and> 0 \<le> y \<and> y \<le> 8 \<and> (x + y) mod 2 = 1 \<and> k = to_i x y \<and> z \<in> set (f x y (- 1))"
    if "man_dict f (get_checkers 8 0 (- 1)) (- 1) k = Some w" and "z \<in> set w" for w
    using man_dict_Some [OF that(1)] that(2) by (auto simp: set_get_checkers)
  show ?thesis
  proof (cases p)
    case Empty
    with assms show ?thesis by (simp add: make_dict_def)
  next
    case BK_PIECE
    with assms have "man_dict f (get_checkers 0 8 1) 1 k = Some v"
      by (simp add: make_dict_def)
    from bk [OF this assms(3)] BK_PIECE show ?thesis by fastforce
  next
    case WH_PIECE
    with assms have "man_dict f (get_checkers 8 0 (- 1)) (- 1) k = Some v"
      by (simp add: make_dict_def)
    from wh [OF this assms(3)] WH_PIECE show ?thesis by fastforce
  next
    case BK_KING
    with assms have "king_dict (man_dict f (get_checkers 8 0 (- 1)) (- 1))
                       (man_dict f (get_checkers 0 8 1) 1) k = Some v"
      by (auto simp: make_dict_def)
    from king_dict_Some [OF this assms(3)] show ?thesis
    proof (elim disjE exE conjE)
      fix w assume "man_dict f (get_checkers 8 0 (- 1)) (- 1) k = Some w" "z \<in> set w"
      from wh [OF this] BK_KING show ?thesis by fastforce
    next
      fix w assume "man_dict f (get_checkers 0 8 1) 1 k = Some w" "z \<in> set w"
      from bk [OF this] BK_KING show ?thesis by fastforce
    qed
  next
    case WH_KING
    with assms have "king_dict (man_dict f (get_checkers 8 0 (- 1)) (- 1))
                       (man_dict f (get_checkers 0 8 1) 1) k = Some v"
      by (auto simp: make_dict_def)
    from king_dict_Some [OF this assms(3)] show ?thesis
    proof (elim disjE exE conjE)
      fix w assume "man_dict f (get_checkers 8 0 (- 1)) (- 1) k = Some w" "z \<in> set w"
      from wh [OF this] WH_KING show ?thesis by fastforce
    next
      fix w assume "man_dict f (get_checkers 0 8 1) 1 k = Some w" "z \<in> set w"
      from bk [OF this] WH_KING show ?thesis by fastforce
    qed
  qed
qed

lemma dark_coords:
  assumes "0 \<le> k" and "k < 64" and "\<not> light k"
  shows "(k mod 8, k div 8) \<in> {(x, y). 0 \<le> x \<and> x < 8 \<and> 0 \<le> y \<and> y \<le> 8 \<and> (x + y) mod 2 = 1}"
proof -
  have "0 \<le> k div 8" and "k div 8 \<le> 8"
    using assms(1,2) by simp_all
  moreover have "(k mod 8 + k div 8) mod 2 = 1"
    using assms(3) unfolding light_def by presburger
  ultimately show ?thesis
    by simp
qed

lemma make_dict_dom:
  assumes "make_dict f p = Some tbl" and "0 \<le> k" and "k < 64" and "\<not> light k"
  shows "tbl k \<noteq> None"
proof -
  have k: "k = to_i (k mod 8) (k div 8)"
    by (simp add: to_i_def)
  have m1: "(k mod 8, k div 8) \<in> set (get_checkers 0 8 1)"
    and m2: "(k mod 8, k div 8) \<in> set (get_checkers 8 0 (- 1))"
    using dark_coords [OF assms(2-4)] by (simp_all only: set_get_checkers)
  have bk: "man_dict f (get_checkers 0 8 1) 1 k \<noteq> None"
    by (rule man_dict_dom [OF m1 k])
  have wh: "man_dict f (get_checkers 8 0 (- 1)) (- 1) k \<noteq> None"
    by (rule man_dict_dom [OF m2 k])
  show ?thesis
  proof (cases p)
    case Empty
    with assms(1) show ?thesis by (simp add: make_dict_def)
  next
    case BK_PIECE
    with assms(1) bk show ?thesis by (auto simp: make_dict_def)
  next
    case WH_PIECE
    with assms(1) wh show ?thesis by (auto simp: make_dict_def)
  next
    case BK_KING
    with assms(1) bk show ?thesis by (auto simp: make_dict_def king_dict_def)
  next
    case WH_KING
    with assms(1) bk show ?thesis by (auto simp: make_dict_def king_dict_def)
  qed
qed

lemma captures_mem:
  "(ov, e) \<in> set (captures x y dy) \<Longrightarrow>
   (ov = to_i (x - 1) (y + dy) \<and> e = to_i (x - 2) (y + dy * 2) \<and>
      in_range (x - 1) (y + dy) \<and> in_range (x - 2) (y + dy * 2)) \<or>
   (ov = to_i (x + 1) (y + dy) \<and> e = to_i (x + 2) (y + dy * 2) \<and>
      in_range (x + 1) (y + dy) \<and> in_range (x + 2) (y + dy * 2))"
  by (simp add: captures_def split: if_splits)

lemma moves_mem:
  "e \<in> set (moves x y dy) \<Longrightarrow>
   (e = to_i (x - 1) (y + dy) \<and> in_range (x - 1) (y + dy)) \<or>
   (e = to_i (x + 1) (y + dy) \<and> in_range (x + 1) (y + dy))"
  by (cases "in_range (x - 1) (y + dy)"; cases "in_range (x + 1) (y + dy)"; simp add: moves_def)


lemma light_to_i: "0 \<le> a \<Longrightarrow> a < 8 \<Longrightarrow> light (to_i a b) = ((a + b) mod 2 = 0)"
  by (simp add: light_def add.commute)

lemma CAPTURES_geometry:
  assumes "CAPTURES p = Some capts" and "capts k = Some pairs" and "(ov, e) \<in> set pairs"
  obtains x y dx dy where "dx = 1 \<or> dx = - 1" and "dy = 1 \<or> dy = - 1"
    and "p = BK_PIECE \<longrightarrow> dy = 1" and "p = WH_PIECE \<longrightarrow> dy = - 1"
    and "0 \<le> x" and "x < 8" and "(x + y) mod 2 = 1" and "k = to_i x y"
    and "ov = to_i (x + dx) (y + dy)" and "e = to_i (x + 2 * dx) (y + 2 * dy)"
    and "in_range (x + dx) (y + dy)" and "in_range (x + 2 * dx) (y + 2 * dy)"
proof -
  from assms(1) have "make_dict captures p = Some capts"
    by (simp add: CAPTURES_def)
  from make_dict_Some [OF this assms(2,3)] obtain x y dy where
    dy: "dy = 1 \<or> dy = - 1" "p = BK_PIECE \<longrightarrow> dy = 1" "p = WH_PIECE \<longrightarrow> dy = - 1"
    and xy: "0 \<le> x" "x < 8" "(x + y) mod 2 = 1" "k = to_i x y"
    and mem: "(ov, e) \<in> set (captures x y dy)"
    by blast
  from captures_mem [OF mem] show thesis
  proof
    assume "ov = to_i (x - 1) (y + dy) \<and> e = to_i (x - 2) (y + dy * 2) \<and>
      in_range (x - 1) (y + dy) \<and> in_range (x - 2) (y + dy * 2)"
    then show thesis
      using that [of "- 1" dy x y] dy xy by (simp add: mult.commute)
  next
    assume "ov = to_i (x + 1) (y + dy) \<and> e = to_i (x + 2) (y + dy * 2) \<and>
      in_range (x + 1) (y + dy) \<and> in_range (x + 2) (y + dy * 2)"
    then show thesis
      using that [of 1 dy x y] dy xy by (simp add: mult.commute)
  qed
qed

lemma CAPTURES_facts:
  assumes "CAPTURES p = Some capts" and "capts k = Some pairs" and "(ov, e) \<in> set pairs"
  shows "0 \<le> ov" and "ov < 64" and "0 \<le> e" and "e < 64"
    and "\<not> light k" and "\<not> light ov" and "\<not> light e"
    and "\<bar>k - e\<bar> = 14 \<or> \<bar>k - e\<bar> = 18"
    and "ov = min k e + \<bar>k - e\<bar> div 2"
    and "p = WH_PIECE \<longrightarrow> 2 \<le> k div 8"
    and "p = BK_PIECE \<longrightarrow> k div 8 \<le> 5"
proof -
  from assms obtain x y dx dy where g: "dx = 1 \<or> dx = - 1" "dy = 1 \<or> dy = - 1"
    "p = BK_PIECE \<longrightarrow> dy = 1" "p = WH_PIECE \<longrightarrow> dy = - 1"
    "0 \<le> x" "x < 8" "(x + y) mod 2 = 1" "k = to_i x y"
    "ov = to_i (x + dx) (y + dy)" "e = to_i (x + 2 * dx) (y + 2 * dy)"
    "in_range (x + dx) (y + dy)" "in_range (x + 2 * dx) (y + 2 * dy)"
    by (rule CAPTURES_geometry)
  show "0 \<le> ov" "ov < 64" "0 \<le> e" "e < 64"
    using g(9-12) by (simp_all add: to_i_def in_range_def)
  show "\<not> light k"
    using g(5-8) by (simp add: light_to_i)
  have "(x + dx + (y + dy)) mod 2 = 1"
    using g(1,2,7) by presburger
  then show "\<not> light ov"
    using g(9,11) by (simp add: light_to_i in_range_def)
  have "(x + 2 * dx + (y + 2 * dy)) mod 2 = 1"
    using g(7) by presburger
  then show "\<not> light e"
    using g(10,12) by (simp add: light_to_i in_range_def)
  have diff: "e - k = 16 * dy + 2 * dx" and mid: "ov - k = 8 * dy + dx"
    using g(8-10) by (simp_all add: to_i_def)
  show "\<bar>k - e\<bar> = 14 \<or> \<bar>k - e\<bar> = 18"
    using diff g(1,2) by auto
  show "ov = min k e + \<bar>k - e\<bar> div 2"
    using diff mid g(1,2) by auto
  have y: "k div 8 = y"
    using g(5,6,8) by simp
  show "p = WH_PIECE \<longrightarrow> 2 \<le> k div 8"
    using g(4,12) y by (auto simp: in_range_def)
  show "p = BK_PIECE \<longrightarrow> k div 8 \<le> 5"
    using g(3,12) y by (auto simp: in_range_def)
qed

lemma MOVES_facts:
  assumes "MOVES p = Some table" and "table k = Some ends" and "e \<in> set ends"
  shows "0 \<le> e" and "e < 64" and "\<not> light k" and "\<not> light e"
    and "\<bar>k - e\<bar> = 7 \<or> \<bar>k - e\<bar> = 9"
proof -
  from assms(1) have "make_dict moves p = Some table"
    by (simp add: MOVES_def)
  from make_dict_Some [OF this assms(2,3)] obtain x y dy where
    dy: "dy = 1 \<or> dy = - 1"
    and xy: "0 \<le> x" "x < 8" "(x + y) mod 2 = 1" "k = to_i x y"
    and mem: "e \<in> set (moves x y dy)"
    by blast
  from moves_mem [OF mem] obtain dx where dx: "dx = 1 \<or> dx = - 1"
    and e: "e = to_i (x + dx) (y + dy)" and r: "in_range (x + dx) (y + dy)"
    by fastforce
  show "0 \<le> e" "e < 64"
    using e r by (simp_all add: to_i_def in_range_def)
  show "\<not> light k"
    using xy by (simp add: light_to_i)
  have "(x + dx + (y + dy)) mod 2 = 1"
    using dx dy xy(3) by presburger
  then show "\<not> light e"
    using e r by (simp add: light_to_i in_range_def)
  have "e - k = 8 * dy + dx"
    using e xy(4) by (simp add: to_i_def)
  then show "\<bar>k - e\<bar> = 7 \<or> \<bar>k - e\<bar> = 9"
    using dx dy by auto
qed

lemma make_dict_defined: "p \<noteq> Empty \<Longrightarrow> \<exists>table. make_dict f p = Some table"
  by (cases p) (simp_all add: make_dict_def)

subsection \<open>Chains over the capture table\<close>

lemma pairwise_seq_Cons2 [simp]: "pairwise_seq (a # b # rest) = (a, b) # pairwise_seq (b # rest)"
  by (simp add: pairwise_seq_def)

lemma pairwise_seq_single [simp]: "pairwise_seq [a] = []"
  by (simp add: pairwise_seq_def)

lemma valid_jump_over:
  assumes "CAPTURES p = Some capts" and "valid_jump brd trn capts captured a ov b"
  shows "ov = min a b + \<bar>a - b\<bar> div 2" and "ov \<notin> captured"
  using assms CAPTURES_facts(9) [OF assms(1)] by (auto simp: valid_jump_def)

lemma chain_of_captured:
  assumes "CAPTURES p = Some capts" and "chain_of brd trn capts captured c"
  shows "distinct (captured_squares c) \<and> set (captured_squares c) \<inter> captured = {}"
  using assms(2)
proof (induction rule: chain_of.induct)
  case (final captured a ov b)
  from valid_jump_over [OF assms(1) this] show ?case
    by (simp add: captured_squares_def)
next
  case (step captured a ov b rest)
  from valid_jump_over [OF assms(1) step.hyps(1)] step.IH show ?case
    by (auto simp: captured_squares_def)
qed

lemma chain_of_nth_jump:
  assumes "chain_of brd trn capts captured c" and "Suc k < length c"
  shows "\<exists>pairs ov. capts (c ! k) = Some pairs \<and> (ov, c ! Suc k) \<in> set pairs"
  using assms
proof (induction arbitrary: k rule: chain_of.induct)
  case (final captured a ov b)
  then show ?case
    by (auto simp: valid_jump_def)
next
  case (step captured a ov b rest)
  show ?case
  proof (cases k)
    case 0
    with step.hyps(1) show ?thesis
      by (auto simp: valid_jump_def)
  next
    case (Suc k')
    with step.prems step.IH [of k'] show ?thesis
      by simp
  qed
qed

subsection \<open>A successful move\<close>

lemma move_success:
  assumes "snd (move s mv) = None"
  obtains squares "end" start piece0 brd1 brd2 brd3 where
    "mv \<in> set (fst (legal_moves s))"
    "map_err xy_to_i (sliced mv 2) = Inr squares"
    "py_index squares (- 1) = Inr end"
    "py_index squares 0 = Inr start"
    "py_index (board s) start = Inr piece0"
    "capture_loop (board s) (pairwise_seq squares) = (brd1, None)"
    "py_setitem brd1 start Empty = Inr brd2"
    "py_setitem brd2 end (promoted s end piece0) = Inr brd3"
    "fst (move s mv) = s\<lparr>board := brd3, half_moves := half_moves s + 1, turn := \<not> turn s\<rparr>"
proof -
  have legal: "mv \<in> set (fst (legal_moves s))"
    using assms by (cases "mv \<in> set (fst (legal_moves s))") (simp_all add: move_def)
  obtain squares where sq: "map_err xy_to_i (sliced mv 2) = Inr squares"
    using assms legal by (cases "map_err xy_to_i (sliced mv 2)") (simp_all add: move_def)
  obtain "end" where e: "py_index squares (- 1) = Inr end"
    using assms legal sq by (cases "py_index squares (- 1)") (simp_all add: move_def)
  obtain start where st: "py_index squares 0 = Inr start"
    using assms legal sq e by (cases "py_index squares 0") (simp_all add: move_def)
  obtain piece0 where p0: "py_index (board s) start = Inr piece0"
    using assms legal sq e st by (cases "py_index (board s) start") (simp_all add: move_def)
  obtain brd1 err where cl: "capture_loop (board s) (pairwise_seq squares) = (brd1, err)"
    by (cases "capture_loop (board s) (pairwise_seq squares)")
  have err: "err = None"
    using assms legal sq e st p0 cl by (cases err) (simp_all add: move_def)
  obtain brd2 where b2: "py_setitem brd1 start Empty = Inr brd2"
    using assms legal sq e st p0 cl err
    by (cases "py_setitem brd1 start Empty") (simp_all add: move_def)
  obtain brd3 where b3: "py_setitem brd2 end (promoted s end piece0) = Inr brd3"
    using assms legal sq e st p0 cl err b2
    by (cases "py_setitem brd2 end (promoted s end piece0)")
       (simp_all add: move_def promoted_def)
  have "fst (move s mv) = s\<lparr>board := brd3, half_moves := half_moves s + 1, turn := \<not> turn s\<rparr>"
    using legal sq e st p0 cl err b2 b3 by (simp add: move_def promoted_def)
  with legal sq e st p0 cl err b2 b3 show thesis
    using that by blast
qed

subsection \<open>More on generators\<close>

lemma gen_map_list_yields:
  "y \<in> set (fst (gen_map_list f xs e)) \<Longrightarrow> \<exists>x \<in> set xs. f x = Inr y"
  by (induction xs) (auto split: sum.splits)

lemma gen_map_yields: "y \<in> set (fst (gen_map f g)) \<Longrightarrow> \<exists>x \<in> set (fst g). f x = Inr y"
  unfolding gen_map_def by (rule gen_map_list_yields)

lemma gen_map_list_no_error:
  "\<forall>x \<in> set xs. \<exists>y. f x = Inr y \<Longrightarrow> snd (gen_map_list f xs e) = e"
  by (induction xs) (auto split: sum.splits)

lemma gen_map_empty: "gen_map f g = ([], None) \<Longrightarrow> g = ([], None)"
  by (cases g; cases "fst g") (auto simp: gen_map_def split: sum.splits)

lemma gen_chain_empty: "gen_chain g h = ([], None) \<Longrightarrow> g = ([], None) \<and> h = ([], None)"
  by (cases g; cases h) (auto simp: gen_chain_def split: option.splits)

lemma gen_concat_empty: "gen_concat gs = ([], None) \<Longrightarrow> g \<in> set gs \<Longrightarrow> g = ([], None)"
  by (induction gs) (auto dest: gen_chain_empty)

lemma gen_concat_no_error: "\<forall>g \<in> set gs. snd g = None \<Longrightarrow> snd (gen_concat gs) = None"
  by (induction gs) (auto simp: gen_chain_def split: option.splits)

subsection \<open>Writing and reading a move\<close>

lemma i_to_xy_table:
  "list_all (\<lambda>i. case i_to_xy i of Inl e \<Rightarrow> False | Inr s \<Rightarrow> length s = 2 \<and> xy_to_i s = Inr i) [0..63]"
  by code_simp

lemma i_to_xy_in_range:
  assumes "0 \<le> i" and "i < 64"
  obtains s where "i_to_xy i = Inr s" and "length s = 2" and "xy_to_i s = Inr i"
proof -
  from assms have "i \<in> set [0..63]"
    by simp
  with i_to_xy_table have "case i_to_xy i of Inl e \<Rightarrow> False | Inr s \<Rightarrow> length s = 2 \<and> xy_to_i s = Inr i"
    unfolding list_all_iff by blast
  then show thesis
    using that by (cases "i_to_xy i") auto
qed

lemma i_to_xy_Inr_less:
  assumes "i_to_xy i = Inr s" and "0 \<le> i"
  shows "i < 64"
proof -
  from assms(1) obtain cy where "py_index Y (i div 8) = Inr cy"
    by (auto simp: i_to_xy_def split: sum.splits)
  then have "i div 8 < 8"
    by (auto simp: py_index_def Y_def split: if_splits)
  then show ?thesis
    by simp
qed

declare sliced.simps [simp del]

lemma sliced_Nil [simp]: "sliced [] n = []"
  by (subst sliced.simps) simp

lemma sliced_two: "length a = 2 \<Longrightarrow> sliced (a @ rest) 2 = a # sliced rest 2"
  by (subst sliced.simps) auto

lemma join_squares_parse:
  assumes "join_squares c = Inr m" and "\<forall>i \<in> set c. 0 \<le> i"
  shows "map_err xy_to_i (sliced m 2) = Inr c \<and> (\<forall>i \<in> set c. i < 64)"
  using assms
proof (induction c arbitrary: m)
  case Nil
  then show ?case
    by (simp add: join_squares_def)
next
  case (Cons i c)
  from Cons.prems(1) obtain s parts where s: "i_to_xy i = Inr s"
    and parts: "map_err i_to_xy c = Inr parts" and m: "m = s @ concat parts"
    by (auto simp: join_squares_def split: sum.splits)
  from Cons.prems(2) have i0: "0 \<le> i"
    by simp
  with s have i64: "i < 64"
    by (rule i_to_xy_Inr_less)
  from i0 i64 s have len: "length s = 2" and inv: "xy_to_i s = Inr i"
    by (auto elim: i_to_xy_in_range)
  from parts have "join_squares c = Inr (concat parts)"
    by (simp add: join_squares_def)
  with Cons.IH Cons.prems(2) have "map_err xy_to_i (sliced (concat parts) 2) = Inr c"
    and "\<forall>i \<in> set c. i < 64"
    by auto
  with len inv i64 show ?case
    by (simp add: m sliced_two)
qed

lemma join_squares_defined:
  assumes "\<forall>i \<in> set c. 0 \<le> i \<and> i < 64"
  shows "\<exists>m. join_squares c = Inr m"
  using assms
proof (induction c)
  case Nil
  then show ?case
    by (simp add: join_squares_def)
next
  case (Cons i c)
  then obtain s where "i_to_xy i = Inr s"
    by (auto elim: i_to_xy_in_range)
  moreover from Cons obtain parts where "map_err i_to_xy c = Inr parts"
    by (auto simp: join_squares_def split: sum.splits)
  ultimately show ?case
    by (simp add: join_squares_def)
qed

subsection \<open>A valid jump makes the search yield\<close>

lemma jump_body_productive:
  assumes "py_index brd jump_over = Inr q" and "lower q = PIECES (\<not> trn)"
    and "jump_over \<notin> captured" and "py_index brd jump_end = Inr Empty"
  shows "jump_body brd trn capts square captured p (jump_over, jump_end) \<noteq> ([], None)"
proof (cases "spy (jump_helper brd trn capts jump_end (insert jump_over captured))")
  case (Inl e)
  with assms show ?thesis
    by (simp add: jump_body_def)
next
  case (Inr r)
  obtain h g where r: "r = (h, g)"
    by (cases r)
  with Inr have "h = take 1 (fst g)"
    by (auto dest: spy_Inr)
  then have "h \<noteq> [] \<Longrightarrow> fst g \<noteq> []"
    by auto
  with assms Inr r show ?thesis
    by (simp add: jump_body_def)
qed

lemma jump_helper_productive:
  assumes "py_index brd square = Inr p"
    and "valid_jump brd trn capts captured square jump_over jump_end"
  shows "jump_helper brd trn capts square captured \<noteq> ([], None)"
proof
  assume empty: "jump_helper brd trn capts square captured = ([], None)"
  from assms(2) obtain pairs q where pairs: "capts square = Some pairs"
    and mem: "(jump_over, jump_end) \<in> set pairs"
    and q: "py_index brd jump_over = Inr q" "lower q = PIECES (\<not> trn)"
    and rest: "jump_over \<notin> captured" "py_index brd jump_end = Inr Empty"
    by (auto simp: valid_jump_def)
  from pairs have "dict_lookup capts square = Inr pairs"
    by (simp add: dict_lookup_def)
  with empty assms(1)
  have "gen_concat (map (jump_body brd trn capts square captured p) pairs) = ([], None)"
    by (simp add: jump_helper_unfold)
  moreover have "jump_body brd trn capts square captured p (jump_over, jump_end)
      \<in> set (map (jump_body brd trn capts square captured p) pairs)"
    using mem by (simp add: image_iff) blast
  ultimately have "jump_body brd trn capts square captured p (jump_over, jump_end) = ([], None)"
    by (rule gen_concat_empty)
  with jump_body_productive [OF q rest] show False
    by blast
qed

subsection \<open>What the generators yield\<close>

lemma capture_available_valid_jump:
  assumes "capture_available s"
  obtains square p capts jump_over jump_end where
    "square \<in> set (find_all_pieces s (PIECES (turn s)))"
    "py_index (board s) square = Inr p" "CAPTURES p = Some capts"
    "valid_jump (board s) (turn s) capts {} square jump_over jump_end"
proof -
  from assms obtain square where sq: "square \<in> set (find_all_pieces s (PIECES (turn s)))"
    and body: "case py_index (board s) square of
          Inl e \<Rightarrow> False
        | Inr p \<Rightarrow>
        (case CAPTURES p of
           None \<Rightarrow> False
         | Some capts \<Rightarrow>
         (case capts square of
            None \<Rightarrow> False
          | Some pairs \<Rightarrow>
              list_ex (\<lambda>(jump_over, jump_end).
                (case py_index (board s) jump_over of
                   Inl e \<Rightarrow> False
                 | Inr q \<Rightarrow> lower q = PIECES (\<not> turn s)) \<and>
                py_index (board s) jump_end = Inr Empty) pairs))"
    unfolding capture_available_def list_ex_iff by blast
  from body obtain p capts pairs where p: "py_index (board s) square = Inr p"
    and capts: "CAPTURES p = Some capts" and pairs: "capts square = Some pairs"
    and ex: "list_ex (\<lambda>(jump_over, jump_end).
                (case py_index (board s) jump_over of
                   Inl e \<Rightarrow> False
                 | Inr q \<Rightarrow> lower q = PIECES (\<not> turn s)) \<and>
                py_index (board s) jump_end = Inr Empty) pairs"
    by (auto split: sum.splits option.splits)
  from ex obtain jump_over jump_end q where "(jump_over, jump_end) \<in> set pairs"
    and "py_index (board s) jump_over = Inr q" and "lower q = PIECES (\<not> turn s)"
    and "py_index (board s) jump_end = Inr Empty"
    unfolding list_ex_iff by (auto split: sum.splits)
  with pairs have "valid_jump (board s) (turn s) capts {} square jump_over jump_end"
    by (auto simp: valid_jump_def)
  with sq p capts show thesis
    by (rule that)
qed

lemma find_all_pieces_mem:
  assumes "square \<in> set (find_all_pieces s colour)"
  shows "0 \<le> square" and "square < int (length (board s))"
    and "lower (board s ! nat square) = colour"
  using assms by (auto simp: find_all_pieces_def in_set_enumerate_eq)

lemma jumps_yield:
  assumes "mv \<in> set (fst (jumps s))"
  obtains square p capts c where
    "square \<in> set (find_all_pieces s (PIECES (turn s)))"
    "py_index (board s) square = Inr p" "CAPTURES p = Some capts"
    "c \<in> set (fst (jump_helper (board s) (turn s) capts square {}))"
    "join_squares c = Inr mv"
proof -
  from assms obtain square where sq: "square \<in> set (find_all_pieces s (PIECES (turn s)))"
    and mv: "mv \<in> set (fst (jumps_from s square))"
    unfolding jumps_def by (blast dest: gen_concat_map_yields)
  from mv obtain p capts where p: "py_index (board s) square = Inr p"
    and capts: "CAPTURES p = Some capts"
    and "mv \<in> set (fst (gen_map join_squares (jump_helper (board s) (turn s) capts square {})))"
    by (auto simp: jumps_from_def dict_lookup_def split: sum.splits option.splits)
  then obtain c where "c \<in> set (fst (jump_helper (board s) (turn s) capts square {}))"
    and "join_squares c = Inr mv"
    by (blast dest: gen_map_yields)
  with sq p capts show thesis
    by (rule that)
qed

lemma chain_of_facts:
  assumes "CAPTURES p = Some capts" and "chain_of brd trn capts captured c"
  shows "\<not> light (hd c) \<and> (\<forall>i \<in> set (tl c). 0 \<le> i \<and> i < 64 \<and> \<not> light i) \<and>
         (\<forall>m \<in> set (captured_squares c). 0 \<le> m \<and> m < 64 \<and> \<not> light m) \<and>
         (\<forall>(a, b) \<in> set (pairwise_seq c). \<bar>a - b\<bar> = 14 \<or> \<bar>a - b\<bar> = 18)"
  using assms(2)
proof (induction rule: chain_of.induct)
  case (final captured a ov b)
  then obtain pairs where pairs: "capts a = Some pairs" "(ov, b) \<in> set pairs"
    by (auto simp: valid_jump_def)
  note f = CAPTURES_facts [OF assms(1) pairs]
  from f show ?case
    by (simp add: captured_squares_def)
next
  case (step captured a ov b rest)
  then obtain pairs where pairs: "capts a = Some pairs" "(ov, b) \<in> set pairs"
    by (auto simp: valid_jump_def)
  note f = CAPTURES_facts [OF assms(1) pairs]
  from f step.IH show ?case
    by (simp add: captured_squares_def)
qed

lemma simple_moves_yield:
  assumes "mv \<in> set (fst (simple_moves s))"
  obtains i e p table ends where
    "i \<in> set (find_all_pieces s (PIECES (turn s)))"
    "py_index (board s) i = Inr p" "MOVES p = Some table" "table i = Some ends"
    "e \<in> set ends" "py_index (board s) e = Inr Empty" "join_squares [i, e] = Inr mv"
proof -
  from assms obtain i where i: "i \<in> set (find_all_pieces s (PIECES (turn s)))"
    and mv: "mv \<in> set (fst (case py_index (board s) i of
          Inl e \<Rightarrow> ([], Some e)
        | Inr p \<Rightarrow>
        (case dict_lookup MOVES p of
           Inl e \<Rightarrow> ([], Some e)
         | Inr table \<Rightarrow>
         (case dict_lookup table i of
            Inl e \<Rightarrow> ([], Some e)
          | Inr ends \<Rightarrow>
              gen_concat (map (\<lambda>end.
                (case py_index (board s) end of
                   Inl e \<Rightarrow> ([], Some e)
                 | Inr q \<Rightarrow>
                     if q = Empty
                     then (case i_to_xy i of
                             Inl e \<Rightarrow> ([], Some e)
                           | Inr a \<Rightarrow>
                               (case i_to_xy end of
                                  Inl e \<Rightarrow> ([], Some e)
                                | Inr b \<Rightarrow> ([a @ b], None)))
                     else ([], None))) ends)))))"
    unfolding simple_moves_def by (blast dest: gen_concat_map_yields)
  from mv obtain p table ends where p: "py_index (board s) i = Inr p"
    and table: "MOVES p = Some table" and ends: "table i = Some ends"
    and mv': "mv \<in> set (fst (gen_concat (map (\<lambda>end.
                (case py_index (board s) end of
                   Inl e \<Rightarrow> ([], Some e)
                 | Inr q \<Rightarrow>
                     if q = Empty
                     then (case i_to_xy i of
                             Inl e \<Rightarrow> ([], Some e)
                           | Inr a \<Rightarrow>
                               (case i_to_xy end of
                                  Inl e \<Rightarrow> ([], Some e)
                                | Inr b \<Rightarrow> ([a @ b], None)))
                     else ([], None))) ends)))"
    by (auto simp: dict_lookup_def split: sum.splits option.splits)
  from mv' obtain e where e: "e \<in> set ends"
    and mv'': "mv \<in> set (fst (case py_index (board s) e of
                   Inl e \<Rightarrow> ([], Some e)
                 | Inr q \<Rightarrow>
                     if q = Empty
                     then (case i_to_xy i of
                             Inl e \<Rightarrow> ([], Some e)
                           | Inr a \<Rightarrow>
                               (case i_to_xy e of
                                  Inl e \<Rightarrow> ([], Some e)
                                | Inr b \<Rightarrow> ([a @ b], None)))
                     else ([], None)))"
    by (blast dest: gen_concat_map_yields)
  from mv'' obtain a b where "py_index (board s) e = Inr Empty"
    and "i_to_xy i = Inr a" and "i_to_xy e = Inr b" and "mv = a @ b"
    by (auto split: sum.splits if_splits)
  then have "py_index (board s) e = Inr Empty" and "join_squares [i, e] = Inr mv"
    by (simp_all add: join_squares_def)
  with i p table ends e show thesis
    by (rule that)
qed

lemma jumps_not_simple:
  assumes "mv \<in> set (fst (jumps s))" and "mv \<in> set (fst (simple_moves s))"
  shows False
proof -
  from assms(1) obtain square p capts c where
    sq: "square \<in> set (find_all_pieces s (PIECES (turn s)))"
    and capts: "CAPTURES p = Some capts"
    and c: "c \<in> set (fst (jump_helper (board s) (turn s) capts square {}))"
    and jc: "join_squares c = Inr mv"
    by (rule jumps_yield)
  from jump_helper_sound [OF c] have chain: "chain_of (board s) (turn s) capts {} c"
    and hd: "hd c = square"
    by simp_all
  from chain obtain a b rest where shape: "c = a # b # rest"
    by (auto dest: chain_of_Cons)
  from chain_of_facts [OF capts chain] shape
  have tl: "\<forall>i \<in> set (b # rest). 0 \<le> i" and d: "\<bar>a - b\<bar> = 14 \<or> \<bar>a - b\<bar> = 18"
    by auto
  from find_all_pieces_mem(1) [OF sq] hd shape have "0 \<le> a"
    by simp
  with tl shape have "\<forall>i \<in> set c. 0 \<le> i"
    by simp
  with jc have pc: "map_err xy_to_i (sliced mv 2) = Inr c"
    by (simp add: join_squares_parse)
  from assms(2) obtain i e p' table ends where
    i: "i \<in> set (find_all_pieces s (PIECES (turn s)))"
    and table: "MOVES p' = Some table" "table i = Some ends" "e \<in> set ends"
    and js: "join_squares [i, e] = Inr mv"
    by (rule simple_moves_yield)
  from find_all_pieces_mem(1) [OF i] MOVES_facts(1) [OF table]
  have "\<forall>k \<in> set [i, e]. 0 \<le> k"
    by simp
  with js have "map_err xy_to_i (sliced mv 2) = Inr [i, e]"
    by (simp add: join_squares_parse)
  with pc shape have "a = i" and "b = e"
    by simp_all
  with d MOVES_facts(5) [OF table] show False
    by auto
qed

lemma legal_moves_cases:
  obtains (jumps) "fst (jumps s) \<noteq> []" and "legal_moves s = jumps s"
  | (error) e where "jumps s = ([], Some e)" and "legal_moves s = ([], Some e)"
  | (simple) "jumps s = ([], None)" and "legal_moves s = simple_moves s"
proof (cases "jumps s")
  case (Pair xs err)
  show thesis
  proof (cases xs)
    case Nil
    show thesis
    proof (cases err)
      case None
      with Pair Nil show thesis
        by (intro simple) (simp_all add: legal_moves_def spy_def)
    next
      case (Some e)
      with Pair Nil show thesis
        by (intro error [of e]) (simp_all add: legal_moves_def spy_def)
    qed
  next
    case (Cons x xs')
    with Pair show thesis
      by (intro jumps) (simp_all add: legal_moves_def spy_def)
  qed
qed

subsection \<open>No exception on a board that keeps the invariant\<close>

lemma wf_board_length: "wf_board brd \<Longrightarrow> length brd = 64"
  by (simp add: wf_board_def)

lemma wf_board_light: "wf_board brd \<Longrightarrow> i < 64 \<Longrightarrow> light (int i) \<Longrightarrow> brd ! i = Empty"
  by (auto simp: wf_board_def light_squares_empty_def list_all_iff)

lemma wf_boardI:
  "length brd = 64 \<Longrightarrow> (\<And>i. i < 64 \<Longrightarrow> light (int i) \<Longrightarrow> brd ! i = Empty) \<Longrightarrow> wf_board brd"
  by (auto simp: wf_board_def light_squares_empty_def list_all_iff)

lemma py_index_in_range:
  "0 \<le> i \<Longrightarrow> i < int (length xs) \<Longrightarrow> py_index xs i = Inr (xs ! nat i)"
  by (simp add: py_index_def)

lemma py_setitem_in_range:
  "0 \<le> i \<Longrightarrow> i < int (length xs) \<Longrightarrow> py_setitem xs i v = Inr (xs[nat i := v])"
  by (simp add: py_setitem_def)

lemma piece_on_dark:
  assumes "wf_board (board s)" and "square \<in> set (find_all_pieces s (PIECES trn))"
  shows "0 \<le> square" and "square < 64" and "\<not> light square"
    and "py_index (board s) square = Inr (board s ! nat square)"
    and "board s ! nat square \<noteq> Empty"
proof -
  note m = find_all_pieces_mem [OF assms(2)]
  show "0 \<le> square" and lt: "square < 64"
    using m(1,2) wf_board_length [OF assms(1)] by simp_all
  show ne: "board s ! nat square \<noteq> Empty"
    using m(3) by (auto simp: PIECES_def split: if_splits)
  have "nat square < 64"
    using lt by simp
  from wf_board_light [OF assms(1) this] ne m(1) show "\<not> light square"
    by auto
  show "py_index (board s) square = Inr (board s ! nat square)"
    using m(1,2) by (rule py_index_in_range)
qed

lemma jump_body_no_error:
  assumes "py_index brd jump_over = Inr q" and "py_index brd jump_end = Inr r"
    and "lower q = PIECES (\<not> trn) \<Longrightarrow> jump_over \<notin> captured \<Longrightarrow> r = Empty \<Longrightarrow>
         \<not> (\<not> is_king p \<and> square div 8 = 7 * of_bool trn) \<Longrightarrow>
         snd (jump_helper brd trn capts jump_end (insert jump_over captured)) = None"
  shows "snd (jump_body brd trn capts square captured p (jump_over, jump_end)) = None"
proof (cases "lower q = PIECES (\<not> trn) \<and> jump_over \<notin> captured \<and> r = Empty \<and>
              \<not> (\<not> is_king p \<and> square div 8 = 7 * of_bool trn)")
  case True
  with assms(3) obtain xs where "jump_helper brd trn capts jump_end (insert jump_over captured) = (xs, None)"
    by (metis prod.collapse)
  with True assms(1,2) show ?thesis
    by (cases xs) (simp_all add: jump_body_def spy_def)
next
  case False
  with assms(1,2) show ?thesis
    by (auto simp: jump_body_def)
qed

lemma jump_helper_no_error:
  assumes "length brd = 64" and "CAPTURES p = Some capts"
    and "0 \<le> square" and "square < 64" and "\<not> light square"
  shows "snd (jump_helper brd trn capts square captured) = None"
  using assms
proof (induction brd trn capts square captured rule: jump_helper.induct)
  case (1 brd trn capts square captured)
  have p0: "py_index brd square = Inr (brd ! nat square)"
    using "1.prems"(1,3,4) by (simp add: py_index_in_range)
  from "1.prems"(2) have "make_dict captures p = Some capts"
    by (simp add: CAPTURES_def)
  from make_dict_dom [OF this "1.prems"(3-5)] obtain pairs where pairs: "capts square = Some pairs"
    by blast
  then have lookup: "dict_lookup capts square = Inr pairs"
    by (simp add: dict_lookup_def)
  have "snd (jump_body brd trn capts square captured (brd ! nat square) pr) = None"
    if mem: "pr \<in> set pairs" for pr
  proof -
    obtain jump_over jump_end where pr: "pr = (jump_over, jump_end)"
      by (cases pr)
    note f = CAPTURES_facts [OF "1.prems"(2) pairs mem [unfolded pr]]
    have q: "py_index brd jump_over = Inr (brd ! nat jump_over)"
      and r: "py_index brd jump_end = Inr (brd ! nat jump_end)"
      using f(1-4) "1.prems"(1) by (simp_all add: py_index_in_range)
    have "snd (jump_helper brd trn capts jump_end (insert jump_over captured)) = None"
      if "lower (brd ! nat jump_over) = PIECES (\<not> trn)" and "jump_over \<notin> captured"
        and "brd ! nat jump_end = Empty"
        and "\<not> (\<not> is_king (brd ! nat square) \<and> square div 8 = 7 * of_bool trn)"
      using "1.IH" [OF p0 lookup mem [unfolded pr] refl q _ that(2) r _ that(4)
              "1.prems"(1,2) f(3,4,7)] that(1,3)
      by simp
    with q r show ?thesis
      unfolding pr by (rule jump_body_no_error)
  qed
  then have "snd (gen_concat (map (jump_body brd trn capts square captured (brd ! nat square)) pairs)) = None"
    by (intro gen_concat_no_error) simp
  then show ?case
    by (simp add: jump_helper_unfold [OF p0 lookup])
qed

lemma jumps_from_no_error:
  assumes "wf_board (board s)" and "square \<in> set (find_all_pieces s (PIECES trn))"
  shows "snd (jumps_from s square) = None"
proof -
  note d = piece_on_dark [OF assms]
  from d(5) obtain capts where capts: "CAPTURES (board s ! nat square) = Some capts"
    unfolding CAPTURES_def by (blast dest: make_dict_defined)
  let ?g = "jump_helper (board s) (turn s) capts square {}"
  have g: "snd ?g = None"
    using wf_board_length [OF assms(1)] capts d(1-3) by (rule jump_helper_no_error)
  have "\<exists>mv. join_squares c = Inr mv" if c: "c \<in> set (fst ?g)" for c
  proof -
    from jump_helper_sound [OF c] have chain: "chain_of (board s) (turn s) capts {} c"
      and hd: "hd c = square"
      by simp_all
    from chain obtain a rest where shape: "c = a # rest"
      by (auto dest: chain_of_Cons)
    from chain_of_facts [OF capts chain] shape hd d(1,2)
    have "\<forall>i \<in> set c. 0 \<le> i \<and> i < 64"
      by auto
    then show ?thesis
      by (rule join_squares_defined)
  qed
  then have "snd (gen_map join_squares ?g) = None"
    unfolding gen_map_def using g by (simp add: gen_map_list_no_error)
  with d(4) capts show ?thesis
    by (simp add: jumps_from_def dict_lookup_def)
qed

lemma jumps_no_error: "wf_board (board s) \<Longrightarrow> snd (jumps s) = None"
  unfolding jumps_def by (intro gen_concat_no_error) (auto dest: jumps_from_no_error)

lemma simple_moves_no_error:
  assumes "wf_board (board s)"
  shows "snd (simple_moves s) = None"
  unfolding simple_moves_def
proof (intro gen_concat_no_error ballI)
  fix g
  assume "g \<in> set (map (\<lambda>i.
       (case py_index (board s) i of
          Inl e \<Rightarrow> ([], Some e)
        | Inr p \<Rightarrow>
        (case dict_lookup MOVES p of
           Inl e \<Rightarrow> ([], Some e)
         | Inr table \<Rightarrow>
         (case dict_lookup table i of
            Inl e \<Rightarrow> ([], Some e)
          | Inr ends \<Rightarrow>
              gen_concat (map (\<lambda>end.
                (case py_index (board s) end of
                   Inl e \<Rightarrow> ([], Some e)
                 | Inr q \<Rightarrow>
                     if q = Empty
                     then (case i_to_xy i of
                             Inl e \<Rightarrow> ([], Some e)
                           | Inr a \<Rightarrow>
                               (case i_to_xy end of
                                  Inl e \<Rightarrow> ([], Some e)
                                | Inr b \<Rightarrow> ([a @ b], None)))
                     else ([], None))) ends)))))
       (find_all_pieces s (PIECES (turn s))))"
  then obtain i where i: "i \<in> set (find_all_pieces s (PIECES (turn s)))"
    and g: "g = (case py_index (board s) i of
          Inl e \<Rightarrow> ([], Some e)
        | Inr p \<Rightarrow>
        (case dict_lookup MOVES p of
           Inl e \<Rightarrow> ([], Some e)
         | Inr table \<Rightarrow>
         (case dict_lookup table i of
            Inl e \<Rightarrow> ([], Some e)
          | Inr ends \<Rightarrow>
              gen_concat (map (\<lambda>end.
                (case py_index (board s) end of
                   Inl e \<Rightarrow> ([], Some e)
                 | Inr q \<Rightarrow>
                     if q = Empty
                     then (case i_to_xy i of
                             Inl e \<Rightarrow> ([], Some e)
                           | Inr a \<Rightarrow>
                               (case i_to_xy end of
                                  Inl e \<Rightarrow> ([], Some e)
                                | Inr b \<Rightarrow> ([a @ b], None)))
                     else ([], None))) ends))))"
    by auto
  note d = piece_on_dark [OF assms i]
  from d(5) obtain table where table: "MOVES (board s ! nat i) = Some table"
    unfolding MOVES_def by (blast dest: make_dict_defined)
  then have "make_dict moves (board s ! nat i) = Some table"
    by (simp add: MOVES_def)
  from make_dict_dom [OF this d(1-3)] obtain ends where ends: "table i = Some ends"
    by blast
  obtain a where a: "i_to_xy i = Inr a"
    using d(1,2) by (rule i_to_xy_in_range)
  have "snd (case py_index (board s) e of
                   Inl e \<Rightarrow> ([], Some e)
                 | Inr q \<Rightarrow>
                     if q = Empty
                     then (case i_to_xy i of
                             Inl e \<Rightarrow> ([], Some e)
                           | Inr a \<Rightarrow>
                               (case i_to_xy e of
                                  Inl e \<Rightarrow> ([], Some e)
                                | Inr b \<Rightarrow> ([a @ b], None)))
                     else ([], None)) = None" if "e \<in> set ends" for e
  proof -
    note f = MOVES_facts [OF table ends that]
    obtain b where "i_to_xy e = Inr b"
      using f(1,2) by (rule i_to_xy_in_range)
    moreover have "py_index (board s) e = Inr (board s ! nat e)"
      using f(1,2) wf_board_length [OF assms] by (simp add: py_index_in_range)
    ultimately show ?thesis
      using a by simp
  qed
  then have "snd (gen_concat (map (\<lambda>end.
                (case py_index (board s) end of
                   Inl e \<Rightarrow> ([], Some e)
                 | Inr q \<Rightarrow>
                     if q = Empty
                     then (case i_to_xy i of
                             Inl e \<Rightarrow> ([], Some e)
                           | Inr a \<Rightarrow>
                               (case i_to_xy end of
                                  Inl e \<Rightarrow> ([], Some e)
                                | Inr b \<Rightarrow> ([a @ b], None)))
                     else ([], None))) ends)) = None"
    by (intro gen_concat_no_error) auto
  with d(4) table ends show "snd g = None"
    by (simp add: g dict_lookup_def)
qed

lemma legal_moves_no_error:
  assumes "wf_board (board s)"
  shows "snd (legal_moves s) = None"
proof (cases s rule: legal_moves_cases)
  case jumps
  with jumps_no_error [OF assms] show ?thesis by simp
next
  case (error e)
  with jumps_no_error [OF assms] show ?thesis by simp
next
  case simple
  with simple_moves_no_error [OF assms] show ?thesis by simp
qed

subsection \<open>The squares of a legal move, and its application\<close>

lemma squares_between_subset: "set (squares_between c) \<subseteq> set (captured_squares c)"
  by (auto simp: squares_between_def captured_squares_def)

lemma jumps_yield_squares:
  assumes "mv \<in> set (fst (jumps s))"
  obtains c where "map_err xy_to_i (sliced mv 2) = Inr c" and "c \<noteq> []"
    and "\<forall>i \<in> set c. 0 \<le> i \<and> i < 64 \<and> \<not> light i"
    and "\<forall>m \<in> set (squares_between c). \<not> light m"
proof -
  from assms obtain square p capts c where
    sq: "square \<in> set (find_all_pieces s (PIECES (turn s)))"
    and capts: "CAPTURES p = Some capts"
    and c: "c \<in> set (fst (jump_helper (board s) (turn s) capts square {}))"
    and jc: "join_squares c = Inr mv"
    by (rule jumps_yield)
  from jump_helper_sound [OF c] have chain: "chain_of (board s) (turn s) capts {} c"
    and hd: "hd c = square"
    by simp_all
  from chain obtain a rest where shape: "c = a # rest"
    by (auto dest: chain_of_Cons)
  note f = chain_of_facts [OF capts chain]
  from find_all_pieces_mem(1) [OF sq] hd shape have a0: "0 \<le> a"
    by simp
  with f shape have nonneg: "\<forall>i \<in> set c. 0 \<le> i"
    by simp
  from join_squares_parse [OF jc nonneg]
  have parse: "map_err xy_to_i (sliced mv 2) = Inr c" and lt: "\<forall>i \<in> set c. i < 64"
    by simp_all
  from f shape have "\<forall>i \<in> set c. \<not> light i"
    by simp
  with nonneg lt have "\<forall>i \<in> set c. 0 \<le> i \<and> i < 64 \<and> \<not> light i"
    by blast
  moreover from f squares_between_subset [of c] have "\<forall>m \<in> set (squares_between c). \<not> light m"
    by blast
  moreover from shape have "c \<noteq> []"
    by simp
  ultimately show thesis
    using parse that by blast
qed

lemma simple_moves_yield_squares:
  assumes "mv \<in> set (fst (simple_moves s))"
  obtains c where "map_err xy_to_i (sliced mv 2) = Inr c" and "c \<noteq> []"
    and "\<forall>i \<in> set c. 0 \<le> i \<and> i < 64 \<and> \<not> light i"
    and "\<forall>m \<in> set (squares_between c). \<not> light m"
proof -
  from assms obtain i e p table ends where
    i: "i \<in> set (find_all_pieces s (PIECES (turn s)))"
    and table: "MOVES p = Some table" "table i = Some ends" "e \<in> set ends"
    and js: "join_squares [i, e] = Inr mv"
    by (rule simple_moves_yield)
  note f = MOVES_facts [OF table]
  from find_all_pieces_mem(1) [OF i] f(1) have nonneg: "\<forall>k \<in> set [i, e]. 0 \<le> k"
    by simp
  from join_squares_parse [OF js nonneg]
  have parse: "map_err xy_to_i (sliced mv 2) = Inr [i, e]" and lt: "\<forall>k \<in> set [i, e]. k < 64"
    by simp_all
  from f(3,4) nonneg lt have "\<forall>k \<in> set [i, e]. 0 \<le> k \<and> k < 64 \<and> \<not> light k"
    by simp
  moreover from f(5) have "squares_between [i, e] = []"
    by (auto simp: squares_between_def)
  ultimately show thesis
    using parse that [of "[i, e]"] by simp
qed

lemma legal_moves_yield_squares:
  assumes "mv \<in> set (fst (legal_moves s))"
  obtains c where "map_err xy_to_i (sliced mv 2) = Inr c" and "c \<noteq> []"
    and "\<forall>i \<in> set c. 0 \<le> i \<and> i < 64 \<and> \<not> light i"
    and "\<forall>m \<in> set (squares_between c). \<not> light m"
proof (cases s rule: legal_moves_cases)
  case jumps
  with assms have "mv \<in> set (fst (jumps s))"
    by simp
  then show ?thesis
    using that by (rule jumps_yield_squares)
next
  case (error e)
  with assms show ?thesis
    by simp
next
  case simple
  with assms have "mv \<in> set (fst (simple_moves s))"
    by simp
  then show ?thesis
    using that by (rule simple_moves_yield_squares)
qed

lemma capture_loop_ok:
  assumes "length brd = 64" and "\<forall>(a, b) \<in> set ps. 0 \<le> a \<and> a < 64 \<and> 0 \<le> b \<and> b < 64"
  shows "\<exists>brd1. capture_loop brd ps = (brd1, None) \<and> length brd1 = 64 \<and>
           (\<forall>i < 64. brd1 ! i = brd ! i \<or> brd1 ! i = Empty)"
  using assms
proof (induction ps arbitrary: brd)
  case Nil
  then show ?case
    by simp
next
  case (Cons pr ps)
  obtain a b where pr: "pr = (a, b)"
    by (cases pr)
  from Cons.prems(2) pr have r: "0 \<le> a" "a < 64" "0 \<le> b" "b < 64"
    and rest: "\<forall>(a, b) \<in> set ps. 0 \<le> a \<and> a < 64 \<and> 0 \<le> b \<and> b < 64"
    by simp_all
  show ?case
  proof (cases "\<bar>a - b\<bar> \<in> {18, 14}")
    case False
    with Cons.IH [OF Cons.prems(1) rest] show ?thesis
      by (simp add: pr)
  next
    case True
    let ?m = "min a b + \<bar>a - b\<bar> div 2"
    have m: "0 \<le> ?m" "?m < 64"
      using r by (auto simp: min_def)
    with Cons.prems(1) have set: "py_setitem brd ?m Empty = Inr (brd[nat ?m := Empty])"
      by (simp add: py_setitem_in_range)
    from Cons.prems(1) have "length (brd[nat ?m := Empty]) = 64"
      by simp
    from Cons.IH [OF this rest] obtain brd1 where
      loop: "capture_loop (brd[nat ?m := Empty]) ps = (brd1, None)" and len: "length brd1 = 64"
      and keep: "\<forall>i < 64. brd1 ! i = brd[nat ?m := Empty] ! i \<or> brd1 ! i = Empty"
      by blast
    have "brd1 ! i = brd ! i \<or> brd1 ! i = Empty" if "i < 64" for i
      using keep that Cons.prems(1) by (cases "i = nat ?m") auto
    moreover from True set have "capture_loop brd (pr # ps) = capture_loop (brd[nat ?m := Empty]) ps"
      by (auto simp: pr Let_def)
    ultimately show ?thesis
      using loop len by simp
  qed
qed

lemma pairwise_seq_in_range:
  assumes "\<forall>i \<in> set c. P i"
  shows "\<forall>(a, b) \<in> set (pairwise_seq c). P a \<and> P b"
proof -
  have "a \<in> set c \<and> b \<in> set c" if "(a, b) \<in> set (pairwise_seq c)" for a b
    using that unfolding pairwise_seq_def
    by (cases c) (auto dest: set_zip_leftD set_zip_rightD)
  with assms show ?thesis
    by blast
qed

lemma move_legal:
  assumes "length (board s) = 64" and "mv \<in> set (fst (legal_moves s))"
    and "map_err xy_to_i (sliced mv 2) = Inr c" and "c \<noteq> []"
    and "\<forall>i \<in> set c. 0 \<le> i \<and> i < 64"
  obtains brd1 where "capture_loop (board s) (pairwise_seq c) = (brd1, None)"
    and "length brd1 = 64" and "\<forall>i < 64. brd1 ! i = board s ! i \<or> brd1 ! i = Empty"
    and "move s mv =
           (s\<lparr>board := brd1[nat (hd c) := Empty,
                              nat (last c) := promoted s (last c) (board s ! nat (hd c))],
              half_moves := half_moves s + 1, turn := \<not> turn s\<rparr>, None)"
proof -
  from assms(4) have e: "py_index c (- 1) = Inr (last c)"
    by (cases c rule: rev_cases) (simp_all add: py_index_def nth_append)
  from assms(4) have st: "py_index c 0 = Inr (hd c)"
    by (cases c) (simp_all add: py_index_def)
  from assms(4,5) have h: "0 \<le> hd c" "hd c < 64" and l: "0 \<le> last c" "last c < 64"
    by simp_all
  from h assms(1) have p0: "py_index (board s) (hd c) = Inr (board s ! nat (hd c))"
    by (simp add: py_index_in_range)
  from assms(5) have "\<forall>(a, b) \<in> set (pairwise_seq c). (0 \<le> a \<and> a < 64) \<and> (0 \<le> b \<and> b < 64)"
    by (rule pairwise_seq_in_range)
  then have "\<forall>(a, b) \<in> set (pairwise_seq c). 0 \<le> a \<and> a < 64 \<and> 0 \<le> b \<and> b < 64"
    by auto
  from capture_loop_ok [OF assms(1) this] obtain brd1 where
    loop: "capture_loop (board s) (pairwise_seq c) = (brd1, None)" and len: "length brd1 = 64"
    and keep: "\<forall>i < 64. brd1 ! i = board s ! i \<or> brd1 ! i = Empty"
    by blast
  from h len have b2: "py_setitem brd1 (hd c) Empty = Inr (brd1[nat (hd c) := Empty])"
    by (simp add: py_setitem_in_range)
  from l len have b3: "py_setitem (brd1[nat (hd c) := Empty]) (last c)
        (promoted s (last c) (board s ! nat (hd c))) =
      Inr (brd1[nat (hd c) := Empty, nat (last c) := promoted s (last c) (board s ! nat (hd c))])"
    by (simp add: py_setitem_in_range)
  have "move s mv =
           (s\<lparr>board := brd1[nat (hd c) := Empty,
                              nat (last c) := promoted s (last c) (board s ! nat (hd c))],
              half_moves := half_moves s + 1, turn := \<not> turn s\<rparr>, None)"
    using assms(2,3) e st p0 loop b2 b3 [unfolded promoted_def]
    by (simp add: move_def promoted_def)
  with loop len keep show thesis
    by (rule that)
qed

lemma move_keeps_invariant:
  assumes "wf_board (board s)" and "move s mv = (s', None)"
  shows "wf_board (board s') \<and>
         (\<exists>squares. map_err xy_to_i (sliced mv 2) = Inr squares \<and>
            (\<forall>m \<in> set (squares_between squares). \<not> light m))"
proof -
  from assms(2) have ok: "snd (move s mv) = None"
    by simp
  then have legal: "mv \<in> set (fst (legal_moves s))"
    by (rule move_success)
  then obtain c where c: "map_err xy_to_i (sliced mv 2) = Inr c" "c \<noteq> []"
    and r: "\<forall>i \<in> set c. 0 \<le> i \<and> i < 64 \<and> \<not> light i"
    and mid: "\<forall>m \<in> set (squares_between c). \<not> light m"
    by (rule legal_moves_yield_squares)
  from r have r': "\<forall>i \<in> set c. 0 \<le> i \<and> i < 64"
    by blast
  from wf_board_length [OF assms(1)] legal c r' obtain brd1 where
    len: "length brd1 = 64" and keep: "\<forall>i < 64. brd1 ! i = board s ! i \<or> brd1 ! i = Empty"
    and mv: "move s mv =
           (s\<lparr>board := brd1[nat (hd c) := Empty,
                              nat (last c) := promoted s (last c) (board s ! nat (hd c))],
              half_moves := half_moves s + 1, turn := \<not> turn s\<rparr>, None)"
    by (rule move_legal)
  from mv assms(2) have s': "board s' = brd1[nat (hd c) := Empty,
                              nat (last c) := promoted s (last c) (board s ! nat (hd c))]"
    by auto
  from c(2) r have last: "0 \<le> last c" "\<not> light (last c)"
    by simp_all
  have "wf_board (board s')"
  proof (rule wf_boardI)
    show "length (board s') = 64"
      using len by (simp add: s')
  next
    fix i :: nat
    assume i: "i < 64" and li: "light (int i)"
    from li last have "i \<noteq> nat (last c)"
      by auto
    moreover from keep i li wf_board_light [OF assms(1)] have "brd1 ! i = Empty"
      by auto
    ultimately show "board s' ! i = Empty"
      using len i by (cases "i = nat (hd c)") (simp_all add: s')
  qed
  with c(1) mid show ?thesis
    by blast
qed

section \<open>The claims\<close>

text \<open>
  Claim C1 fails on the code. On \<open>king_chain_board\<close> the only move yielded is
  c3, e1, g3: the white king jumps d2 and f2 and the chain stops on g3, although from g3
  the pair (f4, e5) of the king's table is a valid jump: f4 holds a black man that the
  chain has not captured and e5 is empty. The recursive call reads \<^verbatim>\<open>is_king\<close> from
  the empty landing square e1, which is on row \<^verbatim>\<open>7 * self.turn\<close>, and so takes the
  branch written for men.
\<close>

theorem king_chain_cut_short:
  "legal_moves king_chain_board = ([''c3e1g3''], None) \<and>
   map_err xy_to_i (sliced ''c3e1g3'' 2) = Inr [42, 60, 46] \<and>
   py_index (board king_chain_board) 42 = Inr WH_KING \<and>
   captured_squares [42, 60, 46] = [51, 53] \<and>
   dict_lookup (the (CAPTURES WH_KING)) 46 = Inr [(37, 28), (53, 60)] \<and>
   py_index (board king_chain_board) 37 = Inr BK_PIECE \<and>
   lower BK_PIECE = PIECES (\<not> turn king_chain_board) \<and>
   37 \<notin> set (captured_squares [42, 60, 46]) \<and>
   py_index (board king_chain_board) 28 = Inr Empty"
  by code_simp

text \<open>
  Claim C2 fails on the code. On \<open>home_row_board\<close> the only move yielded is the
  single jump e1, g3 of the white man, although from g3 the pair (f4, e5) of the man's
  table is a valid jump. The jump departs from row 7, which is not White's promotion
  row \<^verbatim>\<open>7 * (not self.turn)\<close> = 0: the search tests the row \<^verbatim>\<open>7 * self.turn\<close>.
\<close>

theorem home_rank_man_chain_cut_short:
  "legal_moves home_row_board = ([''e1g3''], None) \<and>
   map_err xy_to_i (sliced ''e1g3'' 2) = Inr [60, 46] \<and>
   py_index (board home_row_board) 60 = Inr WH_PIECE \<and>
   (60 :: int) div 8 \<noteq> 7 * of_bool (\<not> turn home_row_board) \<and>
   captured_squares [60, 46] = [53] \<and>
   dict_lookup (the (CAPTURES WH_PIECE)) 46 = Inr [(37, 28)] \<and>
   py_index (board home_row_board) 37 = Inr BK_PIECE \<and>
   lower BK_PIECE = PIECES (\<not> turn home_row_board) \<and>
   37 \<notin> set (captured_squares [60, 46]) \<and>
   py_index (board home_row_board) 28 = Inr Empty"
  by code_simp

text \<open>
  Claim C3. If a capture is available for the side to move, every move that
  \<^verbatim>\<open>legal_moves\<close> yields is one that \<^verbatim>\<open>jumps\<close> yields, and none of them is a move
  that the one-step loop (\<open>simple_moves\<close>) yields: a chain of jumps starts with a
  step of 14 or 18 squares, a one-step move is a step of 7 or 9, and a move text
  determines its squares.
\<close>

theorem captures_are_forced:
  assumes "capture_available s"
  shows "set (fst (legal_moves s)) \<subseteq> set (fst (jumps s)) \<and>
         set (fst (legal_moves s)) \<inter> set (fst (simple_moves s)) = {}"
proof -
  from assms obtain square p capts jump_over jump_end where
    sq: "square \<in> set (find_all_pieces s (PIECES (turn s)))"
    and p: "py_index (board s) square = Inr p" and capts: "CAPTURES p = Some capts"
    and vj: "valid_jump (board s) (turn s) capts {} square jump_over jump_end"
    by (rule capture_available_valid_jump)
  have "jump_helper (board s) (turn s) capts square {} \<noteq> ([], None)"
    using p vj by (rule jump_helper_productive)
  then have "gen_map join_squares (jump_helper (board s) (turn s) capts square {}) \<noteq> ([], None)"
    by (blast dest: gen_map_empty)
  with p capts have "jumps_from s square \<noteq> ([], None)"
    by (simp add: jumps_from_def dict_lookup_def)
  moreover have "jumps_from s square \<in> set (map (jumps_from s) (find_all_pieces s (PIECES (turn s))))"
    using sq by simp
  ultimately have productive: "jumps s \<noteq> ([], None)"
    unfolding jumps_def by (blast dest: gen_concat_empty)
  have sub: "set (fst (legal_moves s)) \<subseteq> set (fst (jumps s))"
  proof (cases s rule: legal_moves_cases)
    case jumps
    then show ?thesis by simp
  next
    case (error e)
    then show ?thesis by simp
  next
    case simple
    with productive show ?thesis by simp
  qed
  moreover from sub have "set (fst (legal_moves s)) \<inter> set (fst (simple_moves s)) = {}"
    using jumps_not_simple [of _ s] by blast
  ultimately show ?thesis
    by simp
qed

text \<open>
  The theorem at \<open>double_jump_board\<close>, where the man on c3 could also step to b4.
\<close>

theorem captures_are_forced_witness:
  "capture_available double_jump_board \<and>
   fst (legal_moves double_jump_board) = [''c3e5g7''] \<and>
   fst (simple_moves double_jump_board) = [''c3b4''] \<and>
   set (fst (legal_moves double_jump_board)) \<inter> set (fst (simple_moves double_jump_board)) = {}"
proof -
  have a: "capture_available double_jump_board"
    by code_simp
  have l: "fst (legal_moves double_jump_board) = [''c3e5g7'']"
    by code_simp
  have m: "fst (simple_moves double_jump_board) = [''c3b4'']"
    by code_simp
  from captures_are_forced [OF a] a l m show ?thesis
    by blast
qed

text \<open>
  Claim C4. The moving piece is a man of the side to move, so the search runs on the
  table \<^verbatim>\<open>_CAPTURES[PIECES[turn]]\<close>. If a square of a chain it yields lies on the
  man's promotion row (\<^verbatim>\<open>7 * (not self.turn)\<close>, the row \<^verbatim>\<open>move\<close> crowns on), that
  square is the last of the chain: no jump is appended after it. The reason is the
  table: a man's table has no pair at a square of that row.
\<close>

theorem man_chain_ends_on_promotion_rank:
  assumes "CAPTURES (PIECES trn) = Some capts"
    and "c \<in> set (fst (jump_helper brd trn capts square captured))"
    and "k < length c" and "c ! k div 8 = 7 * of_bool (\<not> trn)"
  shows "Suc k = length c"
proof (rule ccontr)
  assume "Suc k \<noteq> length c"
  with assms(3) have "Suc k < length c"
    by simp
  with jump_helper_sound [OF assms(2)] obtain pairs ov where
    "capts (c ! k) = Some pairs" and "(ov, c ! Suc k) \<in> set pairs"
    using chain_of_nth_jump by blast
  from CAPTURES_facts(10,11) [OF assms(1) this] assms(4) show False
    by (cases trn) (simp_all add: PIECES_def)
qed

text \<open>
  The theorem at \<open>promotion_board\<close>: the chain is b6, d8 and stops on d8, with the
  black man on e7 next to it.
\<close>

theorem man_chain_ends_on_promotion_rank_witness:
  "CAPTURES (PIECES True) \<noteq> None \<and>
   fst (jump_helper (board promotion_board) True (the (CAPTURES (PIECES True))) 17 {}) = [[17, 3]] \<and>
   [17, 3 :: int] ! 1 div 8 = 7 * of_bool (\<not> True) \<and> Suc 1 = length [17, 3 :: int]"
proof -
  have t: "CAPTURES (PIECES True) = Some (the (CAPTURES (PIECES True)))"
    by (simp add: CAPTURES_def make_dict_def PIECES_def)
  have chains: "fst (jump_helper (board promotion_board) True (the (CAPTURES (PIECES True))) 17 {}) = [[17, 3]]"
    by code_simp
  then have mem: "[17, 3] \<in> set (fst (jump_helper (board promotion_board) True (the (CAPTURES (PIECES True))) 17 {}))"
    by simp
  have k: "(1::nat) < length [17, 3 :: int]" and row: "[17, 3 :: int] ! 1 div 8 = 7 * of_bool (\<not> True)"
    by simp_all
  have ne: "CAPTURES (PIECES True) \<noteq> None"
    using t by (rule ssubst) simp
  have "Suc 1 = length [17, 3 :: int]"
    by (rule man_chain_ends_on_promotion_rank [OF t mem k row])
  with ne chains row show ?thesis
    by blast
qed

text \<open>
  Claim C5. In every chain the capture search yields, the squares jumped over are
  pairwise distinct, and none of them is in the set \<^verbatim>\<open>captured\<close> the search was
  started with (\<^verbatim>\<open>jumps_from\<close> starts it with the empty set). The square a table
  pair jumps over is the square between its two ends (\<open>CAPTURES_facts\<close>), which is
  how \<open>captured_squares\<close> reads them off the chain.
\<close>

theorem no_square_captured_twice:
  assumes "CAPTURES p = Some capts"
    and "c \<in> set (fst (jump_helper brd trn capts square captured))"
  shows "distinct (captured_squares c) \<and> set (captured_squares c) \<inter> captured = {}"
  using chain_of_captured [OF assms(1)] jump_helper_sound [OF assms(2)] by blast

text \<open>The theorem at the two-jump chain of \<open>double_jump_board\<close>.\<close>

theorem no_square_captured_twice_witness:
  "CAPTURES WH_PIECE \<noteq> None \<and>
   fst (jump_helper (board double_jump_board) True (the (CAPTURES WH_PIECE)) 42 {}) = [[42, 28, 14]] \<and>
   captured_squares [42, 28, 14] = [35, 21] \<and> distinct (captured_squares [42, 28, 14])"
proof -
  have t: "CAPTURES WH_PIECE = Some (the (CAPTURES WH_PIECE))"
    by (simp add: CAPTURES_def make_dict_def)
  have chains: "fst (jump_helper (board double_jump_board) True (the (CAPTURES WH_PIECE)) 42 {}) = [[42, 28, 14]]"
    by code_simp
  then have mem: "[42, 28, 14] \<in> set (fst (jump_helper (board double_jump_board) True (the (CAPTURES WH_PIECE)) 42 {}))"
    by simp
  have cs: "captured_squares [42, 28, 14] = [35, 21]"
    by code_simp
  have ne: "CAPTURES WH_PIECE \<noteq> None"
    using t by (rule ssubst) simp
  have "distinct (captured_squares [42, 28, 14])"
    using no_square_captured_twice [OF t mem] by (rule conjunct1)
  with ne chains cs show ?thesis
    by blast
qed

text \<open>
  Claim C6. On a board of 64 cells every move that \<^verbatim>\<open>legal_moves\<close> yields is applied
  by \<^verbatim>\<open>move\<close> without any exception, and a text that is not among them makes
  \<^verbatim>\<open>move\<close> raise and leaves the object as it was before the call (board, turn and
  ply counter). When \<^verbatim>\<open>legal_moves\<close> itself raises nothing, the exception of
  \<^verbatim>\<open>move\<close> is the illegal-move \<^verbatim>\<open>ValueError\<close> exactly when the text is not one
  of the moves yielded; and \<^verbatim>\<open>legal_moves\<close> raises nothing on a board that keeps the
  invariant of the data model (light squares empty), which by \<open>move_keeps_invariant\<close>
  is every board reached from the starting one.
\<close>

theorem move_fails_iff_illegal:
  assumes "length (board s) = 64"
  shows "(mv \<in> set (fst (legal_moves s)) \<longrightarrow> snd (move s mv) = None) \<and>
         (mv \<notin> set (fst (legal_moves s)) \<longrightarrow> fst (move s mv) = s \<and> snd (move s mv) \<noteq> None) \<and>
         (snd (legal_moves s) = None \<longrightarrow>
            (snd (move s mv) = Some IllegalMove \<longleftrightarrow> mv \<notin> set (fst (legal_moves s)))) \<and>
         (wf_board (board s) \<longrightarrow> snd (legal_moves s) = None)"
proof -
  have accepted: "snd (move s mv) = None" if legal: "mv \<in> set (fst (legal_moves s))"
  proof -
    from legal obtain c where c: "map_err xy_to_i (sliced mv 2) = Inr c" "c \<noteq> []"
      and r: "\<forall>i \<in> set c. 0 \<le> i \<and> i < 64 \<and> \<not> light i"
      by (rule legal_moves_yield_squares)
    from r have "\<forall>i \<in> set c. 0 \<le> i \<and> i < 64"
      by blast
    with assms legal c obtain brd where "move s mv = (brd, None)"
      by (rule move_legal)
    then show ?thesis
      by simp
  qed
  have refused: "move s mv = (s, Some (case snd (legal_moves s) of Some e \<Rightarrow> e | None \<Rightarrow> IllegalMove))"
    if "mv \<notin> set (fst (legal_moves s))"
    using that by (simp add: move_def)
  have "snd (move s mv) = Some IllegalMove \<longleftrightarrow> mv \<notin> set (fst (legal_moves s))"
    if "snd (legal_moves s) = None"
    using that accepted refused by (cases "mv \<in> set (fst (legal_moves s))") simp_all
  moreover have "fst (move s mv) = s \<and> snd (move s mv) \<noteq> None"
    if "mv \<notin> set (fst (legal_moves s))"
    using refused [OF that] by (simp split: option.split)
  ultimately show ?thesis
    using accepted legal_moves_no_error by blast
qed

text \<open>The theorem on the new board, at an illegal text and at a legal one.\<close>

theorem move_fails_iff_illegal_witness:
  "length (board init) = 64 \<and> wf_board (board init) \<and> snd (legal_moves init) = None \<and>
   ''a3b5'' \<notin> set (fst (legal_moves init)) \<and> move init ''a3b5'' = (init, Some IllegalMove) \<and>
   ''a3b4'' \<in> set (fst (legal_moves init)) \<and> snd (move init ''a3b4'') = None"
proof -
  have len: "length (board init) = 64"
    by code_simp
  have wf: "wf_board (board init)"
    by code_simp
  have a: "''a3b5'' \<notin> set (fst (legal_moves init))"
    by code_simp
  have b: "''a3b4'' \<in> set (fst (legal_moves init))"
    by code_simp
  from move_fails_iff_illegal [OF len, of "''a3b5''"] wf a
  have ne: "snd (legal_moves init) = None"
    and "snd (move init ''a3b5'') = Some IllegalMove" and "fst (move init ''a3b5'') = init"
    by simp_all
  then have "move init ''a3b5'' = (init, Some IllegalMove)"
    by (simp add: prod_eq_iff)
  moreover from move_fails_iff_illegal [OF len, of "''a3b4''"] b
  have "snd (move init ''a3b4'') = None"
    by simp
  ultimately show ?thesis
    using len wf ne a b by simp
qed

text \<open>
  Claim C7. A move that is applied without an exception adds exactly one to the ply
  counter \<^verbatim>\<open>_half_moves\<close> and flips \<^verbatim>\<open>turn\<close>, whatever the move is: a single
  step or a chain of any number of jumps.
\<close>

theorem move_counts_one_ply:
  assumes "move s mv = (s', None)"
  shows "half_moves s' = half_moves s + 1 \<and> turn s' = (\<not> turn s)"
proof -
  from assms have "snd (move s mv) = None" and "s' = fst (move s mv)"
    by simp_all
  then show ?thesis
    by (elim move_success) simp
qed

text \<open>
  The theorem at a single step from the starting position and at the two-jump chain
  of \<open>double_jump_board\<close>.
\<close>

theorem move_counts_one_ply_witness:
  "snd (move init ''a3b4'') = None \<and>
   half_moves (fst (move init ''a3b4'')) = 1 \<and>
   turn (fst (move init ''a3b4'')) = False \<and>
   snd (move double_jump_board ''c3e5g7'') = None \<and>
   half_moves (fst (move double_jump_board ''c3e5g7'')) = 7 \<and>
   turn (fst (move double_jump_board ''c3e5g7'')) = False"
proof -
  have a: "snd (move init ''a3b4'') = None"
    by code_simp
  then have a': "move init ''a3b4'' = (fst (move init ''a3b4''), None)"
    by (simp add: prod_eq_iff)
  have b: "snd (move double_jump_board ''c3e5g7'') = None"
    by code_simp
  then have b': "move double_jump_board ''c3e5g7'' = (fst (move double_jump_board ''c3e5g7''), None)"
    by (simp add: prod_eq_iff)
  show ?thesis
    using move_counts_one_ply [OF a'] move_counts_one_ply [OF b'] a b
    by (simp add: init_def double_jump_board_def)
qed

text \<open>
  Claim C8. The starting board has 64 cells and its light squares are empty; if a
  board keeps this invariant and \<^verbatim>\<open>move\<close> succeeds on it, the new board keeps it
  too, and every \<^verbatim>\<open>square_between\<close> the loop of \<^verbatim>\<open>move\<close> computes on the squares
  of the move is a dark square.
\<close>

theorem light_squares_stay_empty:
  "wf_board STARTING_BOARD \<and>
   (\<forall>s mv s'. wf_board (board s) \<and> move s mv = (s', None) \<longrightarrow>
      wf_board (board s') \<and>
      (\<exists>squares. map_err xy_to_i (sliced mv 2) = Inr squares \<and>
         (\<forall>m \<in> set (squares_between squares). \<not> light m)))"
proof (rule conjI)
  show "wf_board STARTING_BOARD"
    by code_simp
next
  show "\<forall>s mv s'. wf_board (board s) \<and> move s mv = (s', None) \<longrightarrow>
      wf_board (board s') \<and>
      (\<exists>squares. map_err xy_to_i (sliced mv 2) = Inr squares \<and>
         (\<forall>m \<in> set (squares_between squares). \<not> light m))"
  proof (intro allI impI)
    fix s mv s'
    assume "wf_board (board s) \<and> move s mv = (s', None)"
    then have "wf_board (board s)" and "move s mv = (s', None)"
      by simp_all
    then show "wf_board (board s') \<and>
        (\<exists>squares. map_err xy_to_i (sliced mv 2) = Inr squares \<and>
           (\<forall>m \<in> set (squares_between squares). \<not> light m))"
      by (rule move_keeps_invariant)
  qed
qed

text \<open>
  The theorem at the starting board and at the two-jump chain of \<open>double_jump_board\<close>.
\<close>

theorem light_squares_stay_empty_witness:
  "wf_board STARTING_BOARD \<and>
   wf_board (board double_jump_board) \<and>
   snd (move double_jump_board ''c3e5g7'') = None \<and>
   wf_board (board (fst (move double_jump_board ''c3e5g7''))) \<and>
   map_err xy_to_i (sliced ''c3e5g7'' 2) = Inr [42, 28, 14] \<and>
   squares_between [42, 28, 14] = [35, 21] \<and> \<not> light 35 \<and> \<not> light 21"
proof -
  have wf: "wf_board (board double_jump_board)"
    by code_simp
  have ok: "snd (move double_jump_board ''c3e5g7'') = None"
    by code_simp
  then have mv: "move double_jump_board ''c3e5g7'' = (fst (move double_jump_board ''c3e5g7''), None)"
    by (simp add: prod_eq_iff)
  have parse: "map_err xy_to_i (sliced ''c3e5g7'' 2) = Inr [42, 28, 14]"
    by code_simp
  have sb: "squares_between [42, 28, 14] = [35, 21]"
    by code_simp
  from light_squares_stay_empty have start: "wf_board STARTING_BOARD"
    and step: "wf_board (board double_jump_board) \<and>
        move double_jump_board ''c3e5g7'' = (fst (move double_jump_board ''c3e5g7''), None) \<longrightarrow>
      wf_board (board (fst (move double_jump_board ''c3e5g7''))) \<and>
      (\<exists>squares. map_err xy_to_i (sliced ''c3e5g7'' 2) = Inr squares \<and>
         (\<forall>m \<in> set (squares_between squares). \<not> light m))"
    by blast+
  from step wf mv parse sb
  have "wf_board (board (fst (move double_jump_board ''c3e5g7'')))" and "\<not> light 35 \<and> \<not> light 21"
    by simp_all
  with start wf ok parse sb show ?thesis
    by simp
qed

text \<open>
  Claim C9. On a new board (\<^verbatim>\<open>Board.__init__\<close>: the starting layout, White to
  move) \<^verbatim>\<open>legal_moves\<close> yields exactly seven moves and raises nothing:
  the one-step moves of the four white men of row 5 (a3, c3, e3, g3) to the empty
  squares of row 4. They are what the one-step loop yields, and \<^verbatim>\<open>jumps\<close> yields
  nothing.
\<close>

theorem start_position_moves:
  "legal_moves init =
     ([''a3b4'', ''c3b4'', ''c3d4'', ''e3d4'', ''e3f4'', ''g3f4'', ''g3h4''], None) \<and>
   length (fst (legal_moves init)) = 7 \<and>
   map (\<lambda>mv. map_err xy_to_i (sliced mv 2)) (fst (legal_moves init)) =
     [Inr [40, 33], Inr [42, 33], Inr [42, 35], Inr [44, 35], Inr [44, 37], Inr [46, 37],
      Inr [46, 39]] \<and>
   legal_moves init = simple_moves init \<and>
   jumps init = ([], None)"
  by code_simp

text \<open>
  Claim C10. When the piece on the square is a man (not a king) and the square is on
  the row \<^verbatim>\<open>7 * self.turn\<close> (row 7 when White is to move, row 0 when Black is:
  the mover's own back row), every chain the search yields from that square is a
  single jump: two squares, with no continuation from the landing square.
\<close>

theorem jump_from_home_rank_is_single:
  assumes "py_index brd square = Inr p" and "\<not> is_king p"
    and "square div 8 = (if trn then 7 else 0)"
    and "c \<in> set (fst (jump_helper brd trn capts square captured))"
  shows "length c = 2"
proof -
  from assms(4) obtain p' pairs where "py_index brd square = Inr p'"
    and pairs: "dict_lookup capts square = Inr pairs"
    by (rule jump_helper_yields_lookup)
  from assms(4,1) pairs obtain jump_over jump_end where
    "c \<in> set (fst (jump_body brd trn capts square captured p (jump_over, jump_end)))"
    by (rule jump_helper_yields_body)
  with assms(2,3) show ?thesis
    by (auto dest!: jump_body_yields)
qed

text \<open>
  The theorem at \<open>home_row_board\<close>: the white man on e1 (square 60, row 7) yields the
  single jump to g3 (square 46) and nothing else, although the black man on f4 could be
  jumped from g3.
\<close>

theorem jump_from_home_rank_is_single_witness:
  "py_index (board home_row_board) 60 = Inr WH_PIECE \<and> \<not> is_king WH_PIECE \<and>
   (60::int) div 8 = 7 \<and>
   fst (jump_helper (board home_row_board) True (the (CAPTURES WH_PIECE)) 60 {}) = [[60, 46]] \<and>
   length [60::int, 46] = 2"
proof -
  have idx: "py_index (board home_row_board) 60 = Inr WH_PIECE"
    by code_simp
  have row: "(60::int) div 8 = (if True then 7 else 0)"
    by simp
  have chains: "fst (jump_helper (board home_row_board) True (the (CAPTURES WH_PIECE)) 60 {}) = [[60, 46]]"
    by code_simp
  then have mem: "[60, 46] \<in> set (fst (jump_helper (board home_row_board) True (the (CAPTURES WH_PIECE)) 60 {}))"
    by simp
  have "\<not> is_king WH_PIECE"
    by simp
  from jump_from_home_rank_is_single [OF idx this row mem] idx chains show ?thesis
    by simp
qed

end
